theory Spec2Isabelle
  imports Main "HOL-Library.Sublist"
begin

section \<open>Text, bytes and the text layer of file access\<close>

text \<open>
  The script \<^verbatim>\<open>regenerate_templates.py\<close> opens every file in text mode.  A file on disk
  is a sequence of bytes (\<^typ>\<open>string\<close>, one \<^typ>\<open>char\<close> per byte); a Python \<^verbatim>\<open>str\<close> is
  a sequence of Unicode code points, modelled as \<^typ>\<open>nat list\<close>, so that \<^verbatim>\<open>len\<close> is
  \<^const>\<open>length\<close> and counts code points.  The script names no encoding, so files and
  the standard output use the encoding of the locale, which is part of the world of a run
  (further down); this section holds the UTF-8 codec (strict).  The platform is POSIX:
  reading translates CR LF and a lone CR to LF (universal newlines), writing leaves LF as
  it is.
\<close>

type_synonym str = "nat list"

definition lit :: "string \<Rightarrow> str" where
  "lit s = map of_char s"

definition is_cont :: "nat \<Rightarrow> bool" where
  "is_cont b \<longleftrightarrow> 128 \<le> b \<and> b < 192"

fun utf8_dec :: "nat list \<Rightarrow> str option" where
  "utf8_dec [] = Some []"
| "utf8_dec (b0 # bs) =
     (if b0 < 128 then map_option ((#) b0) (utf8_dec bs)
      else if 194 \<le> b0 \<and> b0 < 224 then
        (case bs of
           b1 # r \<Rightarrow>
             if is_cont b1
             then map_option ((#) ((b0 - 192) * 64 + (b1 - 128))) (utf8_dec r)
             else None
         | _ \<Rightarrow> None)
      else if 224 \<le> b0 \<and> b0 < 240 then
        (case bs of
           b1 # b2 # r \<Rightarrow>
             (let cp = (b0 - 224) * 4096 + (b1 - 128) * 64 + (b2 - 128)
              in if is_cont b1 \<and> is_cont b2 \<and> 2048 \<le> cp \<and> \<not> (55296 \<le> cp \<and> cp < 57344)
                 then map_option ((#) cp) (utf8_dec r)
                 else None)
         | _ \<Rightarrow> None)
      else if 240 \<le> b0 \<and> b0 < 245 then
        (case bs of
           b1 # b2 # b3 # r \<Rightarrow>
             (let cp = (b0 - 240) * 262144 + (b1 - 128) * 4096 + (b2 - 128) * 64 + (b3 - 128)
              in if is_cont b1 \<and> is_cont b2 \<and> is_cont b3 \<and> 65536 \<le> cp \<and> cp < 1114112
                 then map_option ((#) cp) (utf8_dec r)
                 else None)
         | _ \<Rightarrow> None)
      else None)"

definition utf8_decode :: "string \<Rightarrow> str option" where
  "utf8_decode bs = utf8_dec (map of_char bs)"

definition enc_cp :: "nat \<Rightarrow> nat list option" where
  "enc_cp cp =
     (if cp < 128 then Some [cp]
      else if cp < 2048 then Some [192 + cp div 64, 128 + cp mod 64]
      else if cp < 65536 then
        (if 55296 \<le> cp \<and> cp < 57344 then None
         else Some [224 + cp div 4096, 128 + (cp div 64) mod 64, 128 + cp mod 64])
      else if cp < 1114112 then
        Some [240 + cp div 262144, 128 + (cp div 4096) mod 64,
              128 + (cp div 64) mod 64, 128 + cp mod 64]
      else None)"

fun utf8_enc :: "str \<Rightarrow> nat list option" where
  "utf8_enc [] = Some []"
| "utf8_enc (cp # t) =
     (case enc_cp cp of
        None \<Rightarrow> None
      | Some bs \<Rightarrow> map_option ((@) bs) (utf8_enc t))"

definition utf8_encode :: "str \<Rightarrow> string option" where
  "utf8_encode t = map_option (map char_of) (utf8_enc t)"

fun universal_newlines :: "str \<Rightarrow> str" where
  "universal_newlines [] = []"
| "universal_newlines [c] = [if c = 13 then 10 else c]"
| "universal_newlines (c # d # t) =
     (if c = 13 \<and> d = 10 then 10 # universal_newlines t
      else if c = 13 then 10 # universal_newlines (d # t)
      else c # universal_newlines (d # t))"

fun str_of_nat :: "nat \<Rightarrow> str" where
  "str_of_nat n = (if n < 10 then [48 + n] else str_of_nat (n div 10) @ [48 + n mod 10])"

declare str_of_nat.simps [simp del]

section \<open>The part of Python's \<^verbatim>\<open>re\<close> module that the script uses\<close>

text \<open>
  The three patterns have the shape \<^verbatim>\<open>literal .*? literal\<close>, compiled with \<^verbatim>\<open>re.DOTALL\<close>:
  a pattern is a sequence of literals and lazy any-character repetitions.  \<open>re_match\<close> is
  the backtracking matcher anchored at the start of its input; it returns the length of the
  match that the engine finds first (a lazy repetition tries the rest of the pattern before
  it consumes a character).
\<close>

datatype 'a rx = Lit "'a list" | LazyAny

fun re_match :: "'a rx list \<Rightarrow> 'a list \<Rightarrow> nat option" where
  "re_match [] s = Some 0"
| "re_match (Lit l # p) s =
     (if prefix l s
      then (case re_match p (drop (length l) s) of
              None \<Rightarrow> None
            | Some n \<Rightarrow> Some (length l + n))
      else None)"
| "re_match (LazyAny # p) s =
     (case re_match p s of
        Some n \<Rightarrow> Some n
      | None \<Rightarrow>
          (case s of
             [] \<Rightarrow> None
           | c # cs \<Rightarrow>
               (case re_match (LazyAny # p) cs of
                  None \<Rightarrow> None
                | Some n \<Rightarrow> Some (Suc n))))"

lemma re_match_le: "re_match p s = Some n \<Longrightarrow> n \<le> length s"
proof (induction p s arbitrary: n rule: re_match.induct)
  case (1 s)
  then show ?case by simp
next
  case (2 l p s)
  from "2.prems" obtain k where pl: "prefix l s"
    and k: "re_match p (drop (length l) s) = Some k" "n = length l + k"
    by (auto split: if_splits option.splits)
  from "2.IH" [OF pl k(1)] have "k \<le> length s - length l" by simp
  moreover from pl have "length l \<le> length s" by (rule prefix_length_le)
  ultimately show ?case using k(2) by simp
next
  case (3 p s)
  show ?case
  proof (cases "re_match p s")
    case (Some m)
    with "3.prems" have "m = n" by simp
    with Some "3.IH"(1) show ?thesis by simp
  next
    case None
    show ?thesis
    proof (cases s)
      case Nil
      with None "3.prems" show ?thesis by simp
    next
      case (Cons c cs)
      with None "3.prems" obtain k where k: "re_match (LazyAny # p) cs = Some k" "n = Suc k"
        by (auto split: option.splits)
      from "3.IH"(2) [OF None Cons k(1)] have "k \<le> length cs" .
      with k Cons show ?thesis by simp
    qed
  qed
qed

text \<open>
  \<^verbatim>\<open>re.sub\<close> with the default \<^verbatim>\<open>count=0\<close>: scan from left to right, replace every
  non-overlapping match by the filter applied to the matched text, copy every other
  character.  An empty match is replaced too and the scan then copies one character.
\<close>

function sub_loop :: "'a rx list \<Rightarrow> ('a list \<Rightarrow> 'a list) \<Rightarrow> 'a list \<Rightarrow> 'a list" where
  "sub_loop pat f s =
     (case re_match pat s of
        None \<Rightarrow> (case s of [] \<Rightarrow> [] | c # cs \<Rightarrow> c # sub_loop pat f cs)
      | Some n \<Rightarrow>
          f (take n s) @
          (if n = 0 then (case s of [] \<Rightarrow> [] | c # cs \<Rightarrow> c # sub_loop pat f cs)
           else sub_loop pat f (drop n s)))"
  by pat_completeness auto
termination
proof (relation "measure (\<lambda>(pat, f, s). length s)")
  fix pat :: "'a rx list" and f :: "'a list \<Rightarrow> 'a list" and s :: "'a list" and n :: nat
  assume "re_match pat s = Some n" "n \<noteq> 0"
  then have "0 < n" "n \<le> length s"
    using re_match_le by auto
  then show "((pat, f, drop n s), (pat, f, s)) \<in> measure (\<lambda>(pat, f, s). length s)"
    by simp
qed auto

declare sub_loop.simps [simp del]

text \<open>The index of the first occurrence of a string in a string.\<close>

fun find_sub :: "'a list \<Rightarrow> 'a list \<Rightarrow> nat option" where
  "find_sub p [] = (if p = [] then Some 0 else None)"
| "find_sub p (c # cs) = (if prefix p (c # cs) then Some 0 else map_option Suc (find_sub p cs))"


text \<open>
  The replacement argument of \<^verbatim>\<open>re.sub\<close> is a template, not a plain string: the module
  compiles it before it searches (CPython's \<^verbatim>\<open>parse_template\<close>, Python 3.12 and later), so
  a template that it rejects raises whether or not the pattern matches.  A backslash starts
  an escape: \<^verbatim>\<open>g<0>\<close> after it stands for the whole match, any other group reference is
  invalid for a pattern without groups; \<^verbatim>\<open>0\<close> and up to two more octal digits, or three
  octal digits up to 377, give the character with that code; the letters
  \<^verbatim>\<open>a b f n r t v\<close> and a second backslash give the control character and the backslash;
  any other ASCII letter is an error; a backslash before any other character stays, with
  that character; a backslash at the very end is an error.  The exception is
  \<^verbatim>\<open>re.error\<close> (for an unknown group name, \<^verbatim>\<open>IndexError\<close>): one error value stands for
  both.
\<close>

datatype error =
  FileNotFoundError string
  | PermissionError string
  | UnicodeDecodeError string
  | UnicodeEncodeError string
  | TemplateError

datatype 'a titem = Chars "'a list" | WholeMatch

definition is_octdigit :: "nat \<Rightarrow> bool" where
  "is_octdigit c \<longleftrightarrow> 48 \<le> c \<and> c < 56"

definition is_digit :: "nat \<Rightarrow> bool" where
  "is_digit c \<longleftrightarrow> 48 \<le> c \<and> c < 58"

definition is_ascii_letter :: "nat \<Rightarrow> bool" where
  "is_ascii_letter c \<longleftrightarrow> (65 \<le> c \<and> c \<le> 90) \<or> (97 \<le> c \<and> c \<le> 122)"

definition escape_of :: "nat \<Rightarrow> nat option" where
  "escape_of c =
     (if c = 97 then Some 7 else if c = 98 then Some 8 else if c = 102 then Some 12
      else if c = 110 then Some 10 else if c = 114 then Some 13 else if c = 116 then Some 9
      else if c = 118 then Some 11 else if c = 92 then Some 92 else None)"

definition oct_value :: "nat list \<Rightarrow> nat" where
  "oct_value ds = foldl (\<lambda>v d. 8 * v + (d - 48)) 0 ds"

definition cons_item :: "'a titem \<Rightarrow> error + 'a titem list \<Rightarrow> error + 'a titem list" where
  "cons_item i r = (case r of Inl e \<Rightarrow> Inl e | Inr is \<Rightarrow> Inr (i # is))"

lemma length_dropWhile_drop_le: "length (dropWhile P (drop k s)) - m \<le> Suc (length s)"
  using length_dropWhile_le [of P "drop k s"] by simp

function parse_template :: "str \<Rightarrow> error + nat titem list" where
  "parse_template [] = Inr []"
| "parse_template [c] = (if c = 92 then Inl TemplateError else Inr [Chars [c]])"
| "parse_template (c # d # s) =
     (if c \<noteq> 92 then cons_item (Chars [c]) (parse_template (d # s))
      else if d = 103 then
        (let name = takeWhile (\<lambda>x. x \<noteq> 62) (drop 1 s); r = dropWhile (\<lambda>x. x \<noteq> 62) (drop 1 s)
         in if take 1 s = [60] \<and> r \<noteq> [] \<and> name \<noteq> [] \<and> (\<forall>x \<in> set name. x = 48)
            then cons_item WholeMatch (parse_template (drop 1 r))
            else Inl TemplateError)
      else if d = 48 then
        (let ds = takeWhile is_octdigit (take 2 s)
         in cons_item (Chars [oct_value ds mod 256]) (parse_template (drop (length ds) s)))
      else if is_digit d then
        (if is_octdigit d \<and> length s \<ge> 2 \<and> is_octdigit (s ! 0) \<and> is_octdigit (s ! 1)
            \<and> oct_value [d, s ! 0, s ! 1] \<le> 255
         then cons_item (Chars [oct_value [d, s ! 0, s ! 1]]) (parse_template (drop 2 s))
         else Inl TemplateError)
      else
        (case escape_of d of
           Some e \<Rightarrow> cons_item (Chars [e]) (parse_template s)
         | None \<Rightarrow>
             if is_ascii_letter d then Inl TemplateError
             else cons_item (Chars [c, d]) (parse_template s)))"
  by pat_completeness auto
termination
  by (relation "measure length") (auto simp: less_Suc_eq_le length_dropWhile_drop_le)

fun expand :: "'a titem list \<Rightarrow> 'a list \<Rightarrow> 'a list" where
  "expand [] m = []"
| "expand (Chars cs # is) m = cs @ expand is m"
| "expand (WholeMatch # is) m = m @ expand is m"

definition re_sub :: "nat rx list \<Rightarrow> str \<Rightarrow> str \<Rightarrow> error + str" where
  "re_sub pat repl s =
     (case parse_template repl of
        Inl e \<Rightarrow> Inl e
      | Inr items \<Rightarrow> Inr (sub_loop pat (expand items) s))"

section \<open>The file system and the standard output\<close>

text \<open>
  The world of one run: the files by path with their bytes, which paths may be opened for
  reading and for writing, and the history of the effects so far (a write of a whole file,
  a line printed).  \<open>read_text\<close> is \<^verbatim>\<open>open(p).read()\<close>; \<open>write_text\<close> is
  \<^verbatim>\<open>open(p, 'w')\<close> followed by one \<^verbatim>\<open>write\<close>: opening truncates the file, so a text that
  cannot be encoded leaves it empty.
\<close>

datatype event = Wrote string string | Printed str

text \<open>
  The environment of a run is in the world too: \<^verbatim>\<open>open\<close> is called without
  \<^verbatim>\<open>encoding=\<close> and \<^verbatim>\<open>print\<close> writes to \<^verbatim>\<open>sys.stdout\<close>, so both take the encoding of
  the locale.  Two encodings are modelled, UTF-8 and ASCII (a locale whose
  encoding is ASCII, such as the C locale with the UTF-8 mode and the locale coercion of
  Python turned off), both strict: a byte or a character that the encoding does not cover raises.  A
  failure of the device behind the standard output is outside the model.
\<close>

datatype encoding = UTF8 | ASCII

definition decode :: "encoding \<Rightarrow> string \<Rightarrow> str option" where
  "decode enc bs =
     (case enc of
        UTF8 \<Rightarrow> utf8_decode bs
      | ASCII \<Rightarrow>
          if list_all (\<lambda>b. of_char b < (128::nat)) bs then Some (map of_char bs) else None)"

definition encode :: "encoding \<Rightarrow> str \<Rightarrow> string option" where
  "encode enc t =
     (case enc of
        UTF8 \<Rightarrow> utf8_encode t
      | ASCII \<Rightarrow> if list_all (\<lambda>c. c < 128) t then Some (map char_of t) else None)"

record world =
  files :: "string \<rightharpoonup> string"
  can_read :: "string \<Rightarrow> bool"
  can_write :: "string \<Rightarrow> bool"
  encoding :: encoding
  trace :: "event list"

definition read_text :: "string \<Rightarrow> world \<Rightarrow> error + str" where
  "read_text p w =
     (case files w p of
        None \<Rightarrow> Inl (FileNotFoundError p)
      | Some bs \<Rightarrow>
          if \<not> can_read w p then Inl (PermissionError p)
          else (case decode (encoding w) bs of
                  None \<Rightarrow> Inl (UnicodeDecodeError p)
                | Some t \<Rightarrow> Inr (universal_newlines t)))"

definition store :: "string \<Rightarrow> string \<Rightarrow> world \<Rightarrow> world" where
  "store p bs w = w\<lparr>files := (files w)(p \<mapsto> bs), trace := trace w @ [Wrote p bs]\<rparr>"

definition write_text :: "string \<Rightarrow> str \<Rightarrow> world \<Rightarrow> error option \<times> world" where
  "write_text p t w =
     (if \<not> can_write w p then (Some (PermissionError p), w)
      else (case encode (encoding w) t of
              None \<Rightarrow> (Some (UnicodeEncodeError p), store p [] w)
            | Some bs \<Rightarrow> (None, store p bs w)))"

text \<open>
  \<^verbatim>\<open>print\<close> encodes the line for the standard output before it writes it: a line that the
  encoding does not cover raises and nothing of it is written.
\<close>

definition emit :: "str \<Rightarrow> world \<Rightarrow> world" where
  "emit l w = w\<lparr>trace := trace w @ [Printed l]\<rparr>"

definition print :: "str \<Rightarrow> world \<Rightarrow> error option \<times> world" where
  "print l w =
     (case encode (encoding w) l of
        None \<Rightarrow> (Some (UnicodeEncodeError ''<stdout>''), w)
      | Some bs \<Rightarrow> (None, emit l w))"

fun print_lines :: "str list \<Rightarrow> world \<Rightarrow> error option \<times> world" where
  "print_lines [] w = (None, w)"
| "print_lines (l # ls) w =
     (case print l w of
        (Some e, w') \<Rightarrow> (Some e, w')
      | (None, w') \<Rightarrow> print_lines ls w')"

section \<open>The script\<close>

datatype tname = BASIC | TIMELOCK | WEIGHTED

fun template_path :: "tname \<Rightarrow> string" where
  "template_path BASIC = ''templates/basic/contract/src/lib.rs''"
| "template_path TIMELOCK = ''templates/timelock/contract/src/lib.rs''"
| "template_path WEIGHTED = ''templates/weighted/contract/src/lib.rs''"

definition cli_path :: string where
  "cli_path = ''cli/src/commands/init.rs''"

fun const_name :: "tname \<Rightarrow> str" where
  "const_name BASIC = lit ''BASIC_TEMPLATE_LIB''"
| "const_name TIMELOCK = lit ''TIMELOCK_TEMPLATE_LIB''"
| "const_name WEIGHTED = lit ''WEIGHTED_TEMPLATE_LIB''"

text \<open>The opening of a declaration, up to and with the quote of the raw string (code 34).\<close>

definition opener :: "tname \<Rightarrow> str" where
  "opener nm = lit ''const '' @ const_name nm @ lit '': &str = r#'' @ [34]"

definition closer :: str where
  "closer = 34 # lit ''#;''"

definition tmpl_pattern :: "tname \<Rightarrow> nat rx list" where
  "tmpl_pattern nm = [Lit (opener nm), LazyAny, Lit closer]"

definition tmpl_repl :: "tname \<Rightarrow> str \<Rightarrow> str" where
  "tmpl_repl nm body = opener nm @ body @ closer"

definition embed_one :: "tname \<Rightarrow> str \<Rightarrow> str \<Rightarrow> error + str" where
  "embed_one nm body cli_content = re_sub (tmpl_pattern nm) (tmpl_repl nm body) cli_content"

text \<open>The substitution for one name when the replacement is taken literally.\<close>

definition subst :: "tname \<Rightarrow> str \<Rightarrow> str \<Rightarrow> str" where
  "subst nm body t = sub_loop (tmpl_pattern nm) (\<lambda>m. tmpl_repl nm body) t"

text \<open>A stretch of text up to the next closing delimiter: it holds none.\<close>

definition seg :: "str \<Rightarrow> bool" where
  "seg s \<longleftrightarrow> find_sub closer (s @ closer) = Some (length s)"

text \<open>
  Conditions on the text of a template: \<open>clean\<close>, when a double quote followed by the
  text and the closing delimiter holds the closing delimiter at its end only (the text does
  not contain it and does not begin with the two characters after its quote);
  \<open>no_opener\<close>, when the text followed by a double quote does not contain the opener of
  the given name.
\<close>

definition clean :: "str \<Rightarrow> bool" where
  "clean x \<longleftrightarrow> find_sub closer (34 # x @ closer) = Some (Suc (length x))"

definition no_opener :: "tname \<Rightarrow> str \<Rightarrow> bool" where
  "no_opener nm x \<longleftrightarrow> find_sub (opener nm) (x @ [34]) = None"

text \<open>
  A template that the script embeds as it is, for good: its text holds no backslash, is
  \<open>clean\<close>, and does not hold the opener of another name.
\<close>

definition plain_template :: "tname \<Rightarrow> str \<Rightarrow> bool" where
  "plain_template nm x \<longleftrightarrow>
     92 \<notin> set x \<and> clean x \<and>
     (nm = BASIC \<or> no_opener BASIC x) \<and>
     (nm = TIMELOCK \<or> no_opener TIMELOCK x) \<and>
     (nm = WEIGHTED \<or> no_opener WEIGHTED x)"

fun label :: "tname \<Rightarrow> str" where
  "label BASIC = lit ''  Basic template: ''"
| "label TIMELOCK = lit ''  Timelock template: ''"
| "label WEIGHTED = lit ''  Weighted template: ''"

definition report_line :: "tname \<Rightarrow> str \<Rightarrow> str" where
  "report_line nm body = label nm @ str_of_nat (length body) @ lit '' bytes''"

text \<open>The first line starts with the check mark U+2705.\<close>

definition success_line :: str where
  "success_line = 9989 # lit '' CLI templates regenerated successfully!''"

definition report :: "str \<Rightarrow> str \<Rightarrow> str \<Rightarrow> str list" where
  "report basic_lib timelock_lib weighted_lib =
     [success_line, report_line BASIC basic_lib, report_line TIMELOCK timelock_lib,
      report_line WEIGHTED weighted_lib]"

definition embed :: "str \<Rightarrow> str \<Rightarrow> str \<Rightarrow> str \<Rightarrow> error + str" where
  "embed basic_lib timelock_lib weighted_lib cli_content =
     (case embed_one BASIC basic_lib cli_content of
        Inl e \<Rightarrow> Inl e
      | Inr c1 \<Rightarrow>
          (case embed_one TIMELOCK timelock_lib c1 of
             Inl e \<Rightarrow> Inl e
           | Inr c2 \<Rightarrow> embed_one WEIGHTED weighted_lib c2))"

definition regenerate_templates :: "world \<Rightarrow> error option \<times> world" where
  "regenerate_templates w =
     (case read_text (template_path BASIC) w of
        Inl e \<Rightarrow> (Some e, w)
      | Inr basic_lib \<Rightarrow>
     (case read_text (template_path TIMELOCK) w of
        Inl e \<Rightarrow> (Some e, w)
      | Inr timelock_lib \<Rightarrow>
     (case read_text (template_path WEIGHTED) w of
        Inl e \<Rightarrow> (Some e, w)
      | Inr weighted_lib \<Rightarrow>
     (case read_text cli_path w of
        Inl e \<Rightarrow> (Some e, w)
      | Inr cli_content \<Rightarrow>
     (case embed basic_lib timelock_lib weighted_lib cli_content of
        Inl e \<Rightarrow> (Some e, w)
      | Inr cli_content' \<Rightarrow>
     (case write_text cli_path cli_content' w of
        (Some e, w') \<Rightarrow> (Some e, w')
      | (None, w') \<Rightarrow>
          print_lines (report basic_lib timelock_lib weighted_lib) w'))))))"

section \<open>Effects of a run\<close>

definition printed :: "event list \<Rightarrow> str list" where
  "printed evs = concat (map (\<lambda>e. case e of Printed l \<Rightarrow> [l] | Wrote p bs \<Rightarrow> []) evs)"


text \<open>The effects that a run adds to the history.\<close>

definition effects :: "world \<Rightarrow> world \<Rightarrow> event list" where
  "effects w w' = drop (length (trace w)) (trace w')"

definition print_all :: "str list \<Rightarrow> world \<Rightarrow> world" where
  "print_all ls w = foldl (\<lambda>v l. emit l v) w ls"

text \<open>Worlds for concrete runs: every file readable and writable, UTF-8, no history.\<close>

definition world_of :: "(string \<times> string) list \<Rightarrow> world" where
  "world_of fs = \<lparr>files = map_of fs, can_read = (\<lambda>p. True), can_write = (\<lambda>p. True),
     encoding = UTF8, trace = []\<rparr>"

definition sample_world :: world where
  "sample_world = world_of
     [(template_path BASIC, ''fn main() {}''),
      (template_path TIMELOCK, ''fn locked() {}''),
      (template_path WEIGHTED, ''fn weighted() {}''),
      (cli_path, ''const BASIC_TEMPLATE_LIB: &str = r#'' @ [CHR 0x22] @ ''OLD'' @ [CHR 0x22] @ ''#;'')]"

definition sample_output :: string where
  "sample_output =
     ''const BASIC_TEMPLATE_LIB: &str = r#'' @ [CHR 0x22] @ ''fn main() {}'' @ [CHR 0x22] @ ''#;''"

definition sample_effects :: "event list" where
  "sample_effects =
     [Wrote cli_path sample_output,
      Printed success_line,
      Printed (lit ''  Basic template: 12 bytes''),
      Printed (lit ''  Timelock template: 14 bytes''),
      Printed (lit ''  Weighted template: 16 bytes'')]"

definition missing_world :: world where
  "missing_world = world_of [(cli_path, ''fn init() {}'')]"

text \<open>
  Worlds with template files that hold a backslash or a character outside ASCII.  The
  target of \<open>backslash_world\<close> holds one declaration, for basic; its basic template is a
  backslash and the letter n.  In \<open>escape_world\<close> the basic template is a backslash and the
  letter u (the start of a Rust unicode escape) and the target holds a declaration for
  timelock only.  In \<open>group_world\<close> the basic template is a backslash and \<^verbatim>\<open>g<0>\<close>, the
  target holds two declarations for basic.  In \<open>accent_world\<close> the basic template is the
  letter e with an acute accent, two bytes in UTF-8.
\<close>

definition decl :: "string \<Rightarrow> string \<Rightarrow> string" where
  "decl name payload = ''const '' @ name @ ''_TEMPLATE_LIB: &str = r#'' @ [CHR 0x22] @ payload @ [CHR 0x22] @ ''#;''"

definition backslash_world :: world where
  "backslash_world = world_of
     [(template_path BASIC, [CHR 0x5C, CHR ''n'']),
      (template_path TIMELOCK, []),
      (template_path WEIGHTED, []),
      (cli_path, decl ''BASIC'' ''OLD'')]"

definition escape_world :: world where
  "escape_world = world_of
     [(template_path BASIC, [CHR 0x5C, CHR ''u'']),
      (template_path TIMELOCK, ''new''),
      (template_path WEIGHTED, []),
      (cli_path, decl ''TIMELOCK'' ''OLD'')]"

definition group_world :: world where
  "group_world = world_of
     [(template_path BASIC, [CHR 0x5C] @ ''g<0>''),
      (template_path TIMELOCK, []),
      (template_path WEIGHTED, []),
      (cli_path, decl ''BASIC'' ''a'' @ decl ''BASIC'' ''b'')]"

definition accent_world :: world where
  "accent_world = world_of
     [(template_path BASIC, [CHR 0xC3, CHR 0xA9]),
      (template_path TIMELOCK, []),
      (template_path WEIGHTED, []),
      (cli_path, [])]"





lemma print_all_trace: "trace (print_all ls w) = trace w @ map Printed ls"
  unfolding print_all_def by (induction ls arbitrary: w) (simp_all add: emit_def)

lemma print_all_files: "files (print_all ls w) = files w"
  unfolding print_all_def by (induction ls arbitrary: w) (simp_all add: emit_def)

lemma print_all_encoding: "encoding (print_all ls w) = encoding w"
  unfolding print_all_def by (induction ls arbitrary: w) (simp_all add: emit_def)

lemma print_all_Cons: "print_all (l # ls) w = print_all ls (emit l w)"
  by (simp add: print_all_def)

lemma enc_cp_covered: "c < 128 \<or> c = 9989 \<Longrightarrow> enc_cp c \<noteq> None"
  by (auto simp: enc_cp_def)

lemma utf8_enc_covered: "\<forall>c \<in> set t. c < 128 \<or> c = 9989 \<Longrightarrow> utf8_enc t \<noteq> None"
proof (induction t)
  case Nil
  show ?case by simp
next
  case (Cons c t)
  then have "enc_cp c \<noteq> None" and "utf8_enc t \<noteq> None"
    by (simp_all add: enc_cp_covered)
  then show ?case by auto
qed

lemma decode_UTF8 [simp]: "decode UTF8 bs = utf8_decode bs"
  by (simp add: decode_def)

lemma encode_UTF8 [simp]: "encode UTF8 t = utf8_encode t"
  by (simp add: encode_def)

lemma print_lines_utf8:
  assumes "encoding w = UTF8" and "\<forall>l \<in> set ls. \<forall>c \<in> set l. c < 128 \<or> c = 9989"
  shows "print_lines ls w = (None, print_all ls w)"
  using assms
proof (induction ls arbitrary: w)
  case Nil
  then show ?case by (simp add: print_all_def)
next
  case (Cons l ls)
  from Cons.prems have "utf8_enc l \<noteq> None" by (simp add: utf8_enc_covered)
  with Cons.prems(1) have "print l w = (None, emit l w)"
    by (auto simp: print_def encode_def utf8_encode_def)
  moreover have "encoding (emit l w) = UTF8" using Cons.prems(1) by (simp add: emit_def)
  ultimately show ?case using Cons.IH [of "emit l w"] Cons.prems(2)
    by (simp add: print_all_Cons)
qed

lemma str_of_nat_ascii: "\<forall>c \<in> set (str_of_nat n). c < 128"
proof (induction n rule: str_of_nat.induct)
  case (1 n)
  show ?case
  proof (cases "n < 10")
    case True
    then show ?thesis by (simp add: str_of_nat.simps [of n])
  next
    case False
    with 1 have "\<forall>c \<in> set (str_of_nat (n div 10)). c < 128" by simp
    moreover have "48 + n mod 10 < 128"
      using mod_less_divisor [of 10 n] by linarith
    ultimately show ?thesis using False by (simp add: str_of_nat.simps [of n])
  qed
qed

lemma report_covered: "\<forall>l \<in> set (report b t wd). \<forall>c \<in> set l. c < 128 \<or> c = 9989"
proof -
  have "\<forall>c \<in> set (report_line nm x). c < 128" for nm x
    using str_of_nat_ascii [of "length x"]
    by (cases nm) (auto simp: report_line_def lit_def)
  moreover have "\<forall>c \<in> set success_line. c < 128 \<or> c = 9989"
    by (simp add: success_line_def lit_def)
  ultimately show ?thesis by (simp add: report_def)
qed

lemma print_report_utf8:
  "encoding w = UTF8 \<Longrightarrow> print_lines (report b t wd) w = (None, print_all (report b t wd) w)"
  by (rule print_lines_utf8) (simp_all add: report_covered)

lemma print_report_ascii:
  "encoding w = ASCII \<Longrightarrow>
     print_lines (report b t wd) w = (Some (UnicodeEncodeError ''<stdout>''), w)"
  by (simp add: report_def success_line_def print_def encode_def)

lemma print_report:
  "print_lines (report b t wd) w =
     (if encoding w = UTF8 then (None, print_all (report b t wd) w)
      else (Some (UnicodeEncodeError ''<stdout>''), w))"
  by (cases "encoding w") (simp_all add: print_report_utf8 print_report_ascii)

lemma store_encoding: "encoding (store p bs w) = encoding w"
  by (simp add: store_def)

lemma store_trace: "trace (store p bs w) = trace w @ [Wrote p bs]"
  by (simp add: store_def)

lemma store_files: "files (store p bs w) = (files w)(p \<mapsto> bs)"
  by (simp add: store_def)

lemma regenerate_success:
  assumes "regenerate_templates w = (None, w')"
  shows "\<exists>b t wd c c' bs.
           read_text (template_path BASIC) w = Inr b \<and>
           read_text (template_path TIMELOCK) w = Inr t \<and>
           read_text (template_path WEIGHTED) w = Inr wd \<and>
           read_text cli_path w = Inr c \<and>
           embed b t wd c = Inr c' \<and> can_write w cli_path \<and>
           utf8_encode c' = Some bs \<and> encoding w = UTF8 \<and>
           w' = print_all (report b t wd) (store cli_path bs w)"
  using assms unfolding regenerate_templates_def write_text_def
  by (auto simp: print_report store_encoding encode_def
      split: sum.splits option.splits if_splits prod.splits encoding.splits)

lemma regenerate_failure:
  assumes "regenerate_templates w = (Some e, w')"
  shows "w' = w \<or> (\<exists>bs. w' = store cli_path bs w)"
  using assms unfolding regenerate_templates_def write_text_def
  by (auto simp: print_report store_encoding
      split: sum.splits option.splits if_splits prod.splits)

section \<open>First occurrences and the matcher\<close>

lemma find_sub_Some_le: "find_sub p x = Some i \<Longrightarrow> i \<le> length x"
  by (induction x arbitrary: i) (auto split: if_splits)

lemma find_sub_Some_prefix: "find_sub p x = Some i \<Longrightarrow> prefix p (drop i x)"
  by (induction x arbitrary: i) (auto split: if_splits)

lemma find_sub_Some_first: "find_sub p x = Some i \<Longrightarrow> k < i \<Longrightarrow> \<not> prefix p (drop k x)"
proof (induction x arbitrary: i k)
  case Nil
  then show ?case by (auto split: if_splits)
next
  case (Cons c cs)
  show ?case
  proof (cases "prefix p (c # cs)")
    case True
    with Cons.prems show ?thesis by simp
  next
    case False
    with Cons.prems obtain i' where i': "find_sub p cs = Some i'" "i = Suc i'"
      by auto
    show ?thesis
    proof (cases k)
      case 0
      with False show ?thesis by simp
    next
      case (Suc k')
      with Cons.prems(2) i' have "k' < i'" by simp
      from Cons.IH [OF i'(1) this] Suc show ?thesis by simp
    qed
  qed
qed

lemma find_sub_None: "find_sub p x = None \<Longrightarrow> \<not> prefix p (drop k x)"
proof (induction x arbitrary: k)
  case Nil
  then show ?case by (auto split: if_splits)
next
  case (Cons c cs)
  then show ?case by (cases k) (auto split: if_splits)
qed

lemma find_sub_eqI:
  "prefix p (drop i x) \<Longrightarrow> i \<le> length x \<Longrightarrow> (\<And>k. k < i \<Longrightarrow> \<not> prefix p (drop k x)) \<Longrightarrow> find_sub p x = Some i"
proof (induction x arbitrary: i)
  case Nil
  then show ?case by simp
next
  case (Cons c cs)
  show ?case
  proof (cases i)
    case 0
    with Cons.prems(1) show ?thesis by simp
  next
    case (Suc i')
    from Cons.prems(3) [of 0] Suc have np: "\<not> prefix p (c # cs)" by simp
    have "find_sub p cs = Some i'"
    proof (rule Cons.IH)
      show "prefix p (drop i' cs)" using Cons.prems(1) Suc by simp
      show "i' \<le> length cs" using Cons.prems(2) Suc by simp
      fix k assume "k < i'"
      then have "Suc k < i" using Suc by simp
      from Cons.prems(3) [OF this] show "\<not> prefix p (drop k cs)" by simp
    qed
    with np Suc show ?thesis by simp
  qed
qed

lemma re_match_lazy_lit:
  "re_match [LazyAny, Lit S] x = map_option (\<lambda>j. j + length S) (find_sub S x)"
proof (induction x)
  case Nil
  then show ?case by (auto simp: prefix_def)
next
  case (Cons c cs)
  then show ?case by (auto simp: option.map_comp comp_def split: option.splits)
qed

lemma re_match_tmpl:
  "re_match [Lit P, LazyAny, Lit S] x =
     (if prefix P x
      then map_option (\<lambda>j. length P + (j + length S)) (find_sub S (drop (length P) x))
      else None)"
  by (simp only: re_match.simps(2) re_match_lazy_lit) (auto split: option.splits)

section \<open>The scan of \<^verbatim>\<open>re.sub\<close>\<close>

lemma sub_loop_no_match:
  assumes "\<And>k. re_match pat (drop k x) = None"
  shows "sub_loop pat f x = x"
  using assms
proof (induction x)
  case Nil
  from Nil [of 0] show ?case by (simp add: sub_loop.simps)
next
  case (Cons c cs)
  from Cons.prems [of 0] have m: "re_match pat (c # cs) = None" by simp
  have "sub_loop pat f cs = cs"
  proof (rule Cons.IH)
    fix k from Cons.prems [of "Suc k"] show "re_match pat (drop k cs) = None" by simp
  qed
  with m show ?case by (simp add: sub_loop.simps [of pat f "c # cs"])
qed

lemma sub_loop_skip:
  assumes "\<And>k. k < i \<Longrightarrow> re_match pat (drop k x) = None" and "i \<le> length x"
  shows "sub_loop pat f x = take i x @ sub_loop pat f (drop i x)"
  using assms
proof (induction i arbitrary: x)
  case 0
  then show ?case by simp
next
  case (Suc i)
  then obtain c cs where x: "x = c # cs" by (cases x) auto
  from Suc.prems(1) [of 0] x have m: "re_match pat (c # cs) = None" by simp
  have "sub_loop pat f cs = take i cs @ sub_loop pat f (drop i cs)"
  proof (rule Suc.IH)
    fix k assume "k < i"
    then have "Suc k < Suc i" by simp
    from Suc.prems(1) [OF this] x show "re_match pat (drop k cs) = None" by simp
  next
    show "i \<le> length cs" using Suc.prems(2) x by simp
  qed
  with m x show ?case by (simp add: sub_loop.simps [of pat f "c # cs"])
qed

lemma sub_loop_match:
  assumes "re_match pat x = Some n" and "n \<noteq> 0"
  shows "sub_loop pat f x = f (take n x) @ sub_loop pat f (drop n x)"
  using assms by (simp add: sub_loop.simps [of pat f x])

text \<open>The scan for a pattern opener-anything-closer.\<close>

lemma tmpl_no_closer:
  assumes "find_sub S (drop (length P) x) = None"
  shows "sub_loop [Lit P, LazyAny, Lit S] f x = x"
proof (rule sub_loop_no_match)
  fix k
  have "\<not> prefix S (drop j (drop (length P) x))" for j
    using find_sub_None [OF assms] .
  then have "find_sub S (drop (length P) (drop k x)) = None"
    by (metis add.commute drop_drop find_sub_Some_prefix not_Some_eq)
  then show "re_match [Lit P, LazyAny, Lit S] (drop k x) = None"
    by (simp del: re_match.simps add: re_match_tmpl)
qed

lemma tmpl_no_opener:
  assumes "find_sub P x = None"
  shows "sub_loop [Lit P, LazyAny, Lit S] f x = x"
proof (rule sub_loop_no_match)
  fix k
  from find_sub_None [OF assms] have "\<not> prefix P (drop k x)" .
  then show "re_match [Lit P, LazyAny, Lit S] (drop k x) = None"
    by (simp del: re_match.simps add: re_match_tmpl)
qed

lemma tmpl_region:
  assumes i: "find_sub P x = Some i"
    and j: "find_sub S (drop (i + length P) x) = Some j"
    and P: "P \<noteq> []"
  shows "sub_loop [Lit P, LazyAny, Lit S] f x =
           take i x @ f (take (length P + (j + length S)) (drop i x))
           @ sub_loop [Lit P, LazyAny, Lit S] f (drop (i + (length P + (j + length S))) x)"
proof -
  let ?pat = "[Lit P, LazyAny, Lit S]"
  have skip: "sub_loop ?pat f x = take i x @ sub_loop ?pat f (drop i x)"
  proof (rule sub_loop_skip)
    fix k assume "k < i"
    from find_sub_Some_first [OF i this] show "re_match ?pat (drop k x) = None"
      by (simp del: re_match.simps add: re_match_tmpl)
  next
    show "i \<le> length x" using find_sub_Some_le [OF i] .
  qed
  have "re_match ?pat (drop i x) = Some (length P + (j + length S))"
    using find_sub_Some_prefix [OF i] j by (simp del: re_match.simps add: re_match_tmpl add.commute)
  moreover have "length P + (j + length S) \<noteq> 0" using P by simp
  ultimately have "sub_loop ?pat f (drop i x) =
      f (take (length P + (j + length S)) (drop i x))
      @ sub_loop ?pat f (drop (length P + (j + length S)) (drop i x))"
    by (rule sub_loop_match)
  with skip show ?thesis by (simp add: add.commute)
qed

lemma tmpl_scan:
  assumes P: "P \<noteq> []"
  shows "sub_loop [Lit P, LazyAny, Lit S] f x =
     (case find_sub P x of
        None \<Rightarrow> x
      | Some i \<Rightarrow>
          (case find_sub S (drop (i + length P) x) of
             None \<Rightarrow> x
           | Some j \<Rightarrow>
               take i x @ f (take (length P + (j + length S)) (drop i x))
               @ sub_loop [Lit P, LazyAny, Lit S] f (drop (i + (length P + (j + length S))) x)))"
proof (cases "find_sub P x")
  case None
  then show ?thesis by (simp add: tmpl_no_opener)
next
  case (Some i)
  show ?thesis
  proof (cases "find_sub S (drop (i + length P) x)")
    case (Some j)
    from tmpl_region [OF \<open>find_sub P x = Some i\<close> Some P, of f] \<open>find_sub P x = Some i\<close> Some
    show ?thesis by simp
  next
    case None
    have "sub_loop [Lit P, LazyAny, Lit S] f x = x"
    proof (rule sub_loop_no_match)
      fix k
      show "re_match [Lit P, LazyAny, Lit S] (drop k x) = None"
      proof (cases "k < i")
        case True
        from find_sub_Some_first [OF \<open>find_sub P x = Some i\<close> True]
        show ?thesis by (simp del: re_match.simps add: re_match_tmpl)
      next
        case False
        then have "i \<le> k" by simp
        then obtain d where k: "k = i + d" using le_Suc_ex by blast
        have h: "\<not> prefix S (drop m (drop (i + length P) x))" for m
          using find_sub_None [OF None] .
        have eq: "drop j' (drop (length P) (drop k x)) = drop (j' + d) (drop (i + length P) x)" for j'
          by (simp add: k ac_simps)
        have "find_sub S (drop (length P) (drop k x)) = None"
        proof (rule ccontr)
          assume "find_sub S (drop (length P) (drop k x)) \<noteq> None"
          then obtain j' where "find_sub S (drop (length P) (drop k x)) = Some j'" by blast
          from find_sub_Some_prefix [OF this] eq [of j'] h [of "j' + d"] show False by simp
        qed
        then show ?thesis by (simp del: re_match.simps add: re_match_tmpl)
      qed
    qed
    with \<open>find_sub P x = Some i\<close> None show ?thesis by simp
  qed
qed

lemma opener_nonempty: "opener nm \<noteq> []"
  by (simp add: opener_def)

lemma closer_length: "length closer = 3"
  by (simp add: closer_def lit_def)

lemma cons_item_Inr: "cons_item i (Inr is) = Inr (i # is)"
  by (simp add: cons_item_def)

lemma parse_template_plain:
  "92 \<notin> set r \<Longrightarrow> parse_template r = Inr (map (\<lambda>c. Chars [c]) r)"
proof (induction r rule: parse_template.induct)
  case 1
  then show ?case by simp
next
  case (2 c)
  then show ?case by simp
next
  case (3 c d s)
  then show ?case by (simp add: cons_item_Inr)
qed

lemma expand_plain: "expand (map (\<lambda>c. Chars [c]) r) m = r"
  by (induction r) simp_all

lemma re_sub_plain:
  "92 \<notin> set r \<Longrightarrow> re_sub pat r s = Inr (sub_loop pat (\<lambda>m. r) s)"
  by (simp add: re_sub_def parse_template_plain expand_plain [abs_def])

lemma opener_val:
  "opener BASIC = [99, 111, 110, 115, 116, 32, 66, 65, 83, 73, 67, 95, 84, 69, 77, 80, 76, 65, 84, 69, 95, 76, 73, 66, 58, 32, 38, 115, 116, 114, 32, 61, 32, 114, 35, 34]"
  "opener TIMELOCK = [99, 111, 110, 115, 116, 32, 84, 73, 77, 69, 76, 79, 67, 75, 95, 84, 69, 77, 80, 76, 65, 84, 69, 95, 76, 73, 66, 58, 32, 38, 115, 116, 114, 32, 61, 32, 114, 35, 34]"
  "opener WEIGHTED = [99, 111, 110, 115, 116, 32, 87, 69, 73, 71, 72, 84, 69, 68, 95, 84, 69, 77, 80, 76, 65, 84, 69, 95, 76, 73, 66, 58, 32, 38, 115, 116, 114, 32, 61, 32, 114, 35, 34]"
  by (simp_all add: opener_def lit_def)

lemma closer_val: "closer = [34, 35, 59]"
  by (simp add: closer_def lit_def)

lemma opener_no_backslash: "92 \<notin> set (opener nm)"
  by (cases nm) (simp_all add: opener_val)

lemma embed_one_plain:
  assumes "92 \<notin> set body"
  shows "embed_one nm body c = Inr (sub_loop (tmpl_pattern nm) (\<lambda>m. tmpl_repl nm body) c)"
  unfolding embed_one_def
  by (rule re_sub_plain) (use assms opener_no_backslash in \<open>simp add: tmpl_repl_def closer_val\<close>)

lemma tmpl_scan_nm:
  "sub_loop (tmpl_pattern nm) f x =
     (case find_sub (opener nm) x of
        None \<Rightarrow> x
      | Some i \<Rightarrow>
          (case find_sub closer (drop (i + length (opener nm)) x) of
             None \<Rightarrow> x
           | Some j \<Rightarrow>
               take i x @ f (take (length (opener nm) + (j + 3)) (drop i x))
               @ sub_loop (tmpl_pattern nm) f (drop (i + (length (opener nm) + (j + 3))) x)))"
  unfolding tmpl_pattern_def
  by (rule tmpl_scan [OF opener_nonempty, of nm closer f x, unfolded closer_length])

lemma find_sub_closer_example:
  "find_sub closer (lit ''a'' @ closer @ lit ''b'' @ closer) = Some 1"
  by (simp add: closer_def lit_def)

section \<open>A sample run\<close>

lemma sample_reads:
  "read_text (template_path BASIC) (sample_world\<lparr>trace := h\<rparr>) = Inr (lit ''fn main() {}'')"
  "read_text (template_path TIMELOCK) (sample_world\<lparr>trace := h\<rparr>) = Inr (lit ''fn locked() {}'')"
  "read_text (template_path WEIGHTED) (sample_world\<lparr>trace := h\<rparr>) = Inr (lit ''fn weighted() {}'')"
  "read_text cli_path (sample_world\<lparr>trace := h\<rparr>) = Inr (opener BASIC @ lit ''OLD'' @ closer)"
  by (simp_all add: read_text_def sample_world_def world_of_def utf8_decode_def lit_def
        is_cont_def cli_path_def opener_val closer_val)

lemma sample_embed:
  "embed (lit ''fn main() {}'') (lit ''fn locked() {}'') (lit ''fn weighted() {}'')
     (opener BASIC @ lit ''OLD'' @ closer)
   = Inr (opener BASIC @ lit ''fn main() {}'' @ closer)"
  by (simp add: embed_def embed_one_plain lit_def tmpl_scan_nm opener_val closer_val tmpl_repl_def)

lemma utf8_enc_ascii: "\<forall>c \<in> set t. c < 128 \<Longrightarrow> utf8_enc t = Some t"
  by (induction t) (simp_all add: enc_cp_def)

lemma utf8_encode_lit:
  assumes "\<forall>c \<in> set s. of_char c < (128::nat)"
  shows "utf8_encode (lit s) = Some s"
proof -
  have "utf8_enc (lit s) = Some (lit s)"
    by (rule utf8_enc_ascii) (use assms in \<open>simp add: lit_def\<close>)
  then show ?thesis by (simp add: utf8_encode_def lit_def comp_def)
qed

lemma sample_encode:
  "utf8_encode (opener BASIC @ lit ''fn main() {}'' @ closer) = Some sample_output"
proof -
  have "opener BASIC @ lit ''fn main() {}'' @ closer = lit sample_output"
    by (simp add: opener_def closer_def lit_def sample_output_def)
  moreover have "utf8_encode (lit sample_output) = Some sample_output"
    by (rule utf8_encode_lit) (simp add: sample_output_def)
  ultimately show ?thesis by simp
qed

lemma sample_can_write: "can_write sample_world p"
  by (simp add: sample_world_def world_of_def)

lemma sample_encoding: "encoding sample_world = UTF8"
  by (simp add: sample_world_def world_of_def)

lemma sample_run:
  "regenerate_templates (sample_world\<lparr>trace := h\<rparr>) =
     (None, print_all (report (lit ''fn main() {}'') (lit ''fn locked() {}'') (lit ''fn weighted() {}''))
              (store cli_path sample_output (sample_world\<lparr>trace := h\<rparr>)))"
  by (simp del: template_path.simps
        add: regenerate_templates_def sample_reads sample_embed write_text_def sample_encode
          sample_can_write sample_encoding print_report store_encoding)

lemma sample_world_trace: "sample_world\<lparr>trace := []\<rparr> = sample_world"
  by (simp add: sample_world_def world_of_def)

section \<open>Failed reads\<close>

text \<open>
  C3: when reading one of the three template files or the target file fails, the run
  aborts with an error and the world is the one before the run: no file is opened for
  writing, the bytes of the target file are unchanged, nothing is printed.
\<close>

theorem read_failure_leaves_world:
  assumes "p \<in> {template_path BASIC, template_path TIMELOCK, template_path WEIGHTED, cli_path}"
    and "read_text p w = Inl e"
  shows "\<exists>e'. regenerate_templates w = (Some e', w)"
  using assms unfolding regenerate_templates_def
  by (auto split: sum.splits)

theorem read_failure_leaves_world_witness:
  "template_path BASIC \<in> {template_path BASIC, template_path TIMELOCK, template_path WEIGHTED, cli_path}
   \<and> read_text (template_path BASIC) missing_world = Inl (FileNotFoundError (template_path BASIC))
   \<and> (\<exists>e'. regenerate_templates missing_world = (Some e', missing_world))"
proof -
  have r: "read_text (template_path BASIC) missing_world = Inl (FileNotFoundError (template_path BASIC))"
    by (simp add: read_text_def missing_world_def world_of_def cli_path_def)
  have m: "template_path BASIC \<in> {template_path BASIC, template_path TIMELOCK, template_path WEIGHTED, cli_path}"
    by simp
  from read_failure_leaves_world [OF m r] r m show ?thesis by blast
qed

section \<open>The extent of a region\<close>

text \<open>
  C8: for each template name, a match that starts at the opener of a declaration ends with
  the earliest occurrence of the closing delimiter after the opener (index \<open>j\<close> of the
  rest \<open>x\<close>, no occurrence before it).  The substitution replaces exactly this stretch and
  goes on behind it: when the old payload contains the closing delimiter, what follows its
  first occurrence is left in the text.
\<close>

theorem region_ends_at_first_closer:
  assumes "find_sub closer x = Some j"
  shows "re_match (tmpl_pattern nm) (opener nm @ x) = Some (length (opener nm) + (j + length closer))
       \<and> (\<forall>k < j. \<not> prefix closer (drop k x))
       \<and> sub_loop (tmpl_pattern nm) f (opener nm @ x)
           = f (opener nm @ take (j + length closer) x)
             @ sub_loop (tmpl_pattern nm) f (drop (j + length closer) x)"
proof -
  let ?n = "length (opener nm) + (j + length closer)"
  have m: "re_match (tmpl_pattern nm) (opener nm @ x) = Some ?n"
    using assms by (simp del: re_match.simps add: tmpl_pattern_def re_match_tmpl)
  have "?n \<noteq> 0" using opener_nonempty [of nm] by simp
  from sub_loop_match [OF m this, of f]
  have "sub_loop (tmpl_pattern nm) f (opener nm @ x)
           = f (opener nm @ take (j + length closer) x)
             @ sub_loop (tmpl_pattern nm) f (drop (j + length closer) x)"
    by simp
  with m find_sub_Some_first [OF assms] show ?thesis by blast
qed

theorem region_ends_at_first_closer_witness:
  "find_sub closer (lit ''a'' @ closer @ lit ''b'' @ closer) = Some 1
   \<and> re_match (tmpl_pattern BASIC) (opener BASIC @ lit ''a'' @ closer @ lit ''b'' @ closer)
       = Some (length (opener BASIC) + (1 + length closer))
   \<and> sub_loop (tmpl_pattern BASIC) (\<lambda>m. lit ''R'') (opener BASIC @ lit ''a'' @ closer @ lit ''b'' @ closer)
       = lit ''R'' @ sub_loop (tmpl_pattern BASIC) (\<lambda>m. lit ''R'') (lit ''b'' @ closer)"
  using region_ends_at_first_closer [OF find_sub_closer_example, of BASIC "\<lambda>m. lit ''R''"]
    find_sub_closer_example
  by (simp add: closer_length lit_def)

section \<open>The write and the report\<close>

lemma effects_append: "trace w' = trace w @ new \<Longrightarrow> effects w w' = new"
  by (simp add: effects_def)

lemma success_trace:
  "trace (print_all ls (store p bs w)) = trace w @ Wrote p bs # map Printed ls"
  by (simp add: print_all_trace store_trace)

lemma printed_map_Printed: "printed (map Printed ls) = ls"
  by (induction ls) (simp_all add: printed_def)


text \<open>
  C7: in a run that ends without an error, the effects are the write of the target file
  followed by the four printed lines, in this order; a run that ends with an error prints
  nothing.  So no line of the report is printed before the target file is written.
\<close>

theorem write_precedes_report:
  assumes "regenerate_templates w = (r, w')"
  shows "(r = None \<and>
          (\<exists>bs b t wd. effects w w' = Wrote cli_path bs # map Printed (report b t wd)
             \<and> files w' cli_path = Some bs))
       \<or> (r \<noteq> None \<and> printed (effects w w') = [])"
proof (cases r)
  case None
  with assms obtain b t wd bs where
    w': "w' = print_all (report b t wd) (store cli_path bs w)"
    using regenerate_success by blast
  have "effects w w' = Wrote cli_path bs # map Printed (report b t wd)"
    by (rule effects_append) (simp add: w' success_trace)
  moreover have "files w' cli_path = Some bs"
    by (simp add: w' print_all_files store_files)
  ultimately show ?thesis using None by blast
next
  case (Some e)
  with assms have "w' = w \<or> (\<exists>bs. w' = store cli_path bs w)"
    using regenerate_failure by blast
  then have "printed (effects w w') = []"
    by (auto simp: effects_def store_trace printed_def)
  with Some show ?thesis by simp
qed

theorem write_precedes_report_witness:
  "regenerate_templates sample_world
     = (None, print_all (report (lit ''fn main() {}'') (lit ''fn locked() {}'') (lit ''fn weighted() {}''))
                (store cli_path sample_output sample_world))
   \<and> (\<exists>bs b t wd.
         effects sample_world
           (print_all (report (lit ''fn main() {}'') (lit ''fn locked() {}'') (lit ''fn weighted() {}''))
              (store cli_path sample_output sample_world))
         = Wrote cli_path bs # map Printed (report b t wd))"
  using write_precedes_report [OF sample_run [of "[]", unfolded sample_world_trace]]
    sample_run [of "[]", unfolded sample_world_trace]
  by blast

section \<open>Sequential substitutions, one write\<close>



section \<open>What a run depends on\<close>
















section \<open>Templates with a backslash\<close>

lemma parse_template_Cons_plain:
  "c \<noteq> 92 \<Longrightarrow> parse_template (c # s) = cons_item (Chars [c]) (parse_template s)"
  by (cases s) (simp_all add: cons_item_def)

lemma parse_template_append_plain:
  "92 \<notin> set a \<Longrightarrow>
   parse_template (a @ r) =
     (case parse_template r of Inl e \<Rightarrow> Inl e | Inr is \<Rightarrow> Inr (map (\<lambda>c. Chars [c]) a @ is))"
  by (induction a) (auto simp: parse_template_Cons_plain cons_item_def split: sum.splits)

lemma expand_append_plain: "expand (map (\<lambda>c. Chars [c]) a @ is) m = a @ expand is m"
  by (induction a) simp_all

lemma embed_one_parse:
  "embed_one nm body c =
     (case parse_template (body @ closer) of
        Inl e \<Rightarrow> Inl e
      | Inr is \<Rightarrow> Inr (sub_loop (tmpl_pattern nm) (\<lambda>m. opener nm @ expand is m) c))"
  by (simp add: embed_one_def re_sub_def tmpl_repl_def
        parse_template_append_plain [OF opener_no_backslash] expand_append_plain [abs_def]
      split: sum.splits)

lemma decl_text:
  "map of_char (decl ''BASIC'' p) = opener BASIC @ lit p @ closer"
  "map of_char (decl ''TIMELOCK'' p) = opener TIMELOCK @ lit p @ closer"
  by (simp_all add: decl_def opener_def closer_def lit_def)

lemma run_eval:
  assumes "read_text (template_path BASIC) w = Inr b"
    and "read_text (template_path TIMELOCK) w = Inr t"
    and "read_text (template_path WEIGHTED) w = Inr wd"
    and "read_text cli_path w = Inr c"
    and "embed b t wd c = Inr c'"
    and "can_write w cli_path"
    and "utf8_encode c' = Some bs"
    and "encoding w = UTF8"
  shows "regenerate_templates w = (None, print_all (report b t wd) (store cli_path bs w))"
  using assms
  by (simp add: regenerate_templates_def write_text_def print_report store_encoding)

lemma run_eval_error:
  assumes "read_text (template_path BASIC) w = Inr b"
    and "read_text (template_path TIMELOCK) w = Inr t"
    and "read_text (template_path WEIGHTED) w = Inr wd"
    and "read_text cli_path w = Inr c"
    and "embed b t wd c = Inl e"
  shows "regenerate_templates w = (Some e, w)"
  using assms by (simp add: regenerate_templates_def)

lemmas read_eval = read_text_def world_of_def utf8_decode_def lit_def is_cont_def cli_path_def
  decl_def opener_val closer_val

lemma backslash_reads:
  "read_text (template_path BASIC) backslash_world = Inr [92, 110]"
  "read_text (template_path TIMELOCK) backslash_world = Inr []"
  "read_text (template_path WEIGHTED) backslash_world = Inr []"
  "read_text cli_path backslash_world = Inr (opener BASIC @ lit ''OLD'' @ closer)"
  by (simp_all add: backslash_world_def read_eval)

lemma backslash_embed:
  "embed [92, 110] [] [] (opener BASIC @ lit ''OLD'' @ closer) = Inr (opener BASIC @ [10] @ closer)"
  by (simp add: embed_def embed_one_parse closer_val cons_item_def escape_of_def
        is_digit_def is_octdigit_def is_ascii_letter_def tmpl_scan_nm opener_val lit_def)

lemma backslash_encode:
  "utf8_encode (opener BASIC @ [10] @ closer) = Some (decl ''BASIC'' [CHR 0x0A])"
proof -
  have "opener BASIC @ [10] @ closer = lit (decl ''BASIC'' [CHR 0x0A])"
    by (simp add: opener_def closer_def lit_def decl_def)
  moreover have "utf8_encode (lit (decl ''BASIC'' [CHR 0x0A])) = Some (decl ''BASIC'' [CHR 0x0A])"
    by (rule utf8_encode_lit) (simp add: decl_def)
  ultimately show ?thesis by simp
qed

text \<open>
  C1 at a template with a backslash: the basic template file holds the two characters
  backslash and n, the target holds the declaration for basic.  The run ends without an
  error and the payload of the declaration in the target file is one line feed, not the
  two characters of the template.
\<close>

theorem backslash_template_not_verbatim:
  "read_text (template_path BASIC) backslash_world = Inr [92, 110]
   \<and> files backslash_world cli_path = Some (decl ''BASIC'' ''OLD'')
   \<and> fst (regenerate_templates backslash_world) = None
   \<and> files (snd (regenerate_templates backslash_world)) cli_path = Some (decl ''BASIC'' [CHR 0x0A])
   \<and> decl ''BASIC'' [CHR 0x0A] \<noteq> decl ''BASIC'' [CHR 0x5C, CHR ''n'']"
proof -
  have w: "can_write backslash_world cli_path" and enc: "encoding backslash_world = UTF8"
    by (simp_all add: backslash_world_def world_of_def)
  have "regenerate_templates backslash_world
      = (None, print_all (report [92, 110] [] []) (store cli_path (decl ''BASIC'' [CHR 0x0A]) backslash_world))"
    by (rule run_eval [OF backslash_reads backslash_embed w backslash_encode enc])
  then have "fst (regenerate_templates backslash_world) = None"
    and "files (snd (regenerate_templates backslash_world)) cli_path = Some (decl ''BASIC'' [CHR 0x0A])"
    by (simp_all add: print_all_files store_files)
  moreover have "files backslash_world cli_path = Some (decl ''BASIC'' ''OLD'')"
    by (simp add: backslash_world_def world_of_def cli_path_def)
  moreover have "decl ''BASIC'' [CHR 0x0A] \<noteq> decl ''BASIC'' [CHR 0x5C, CHR ''n'']"
    by (simp add: decl_def)
  ultimately show ?thesis using backslash_reads(1) by simp
qed

lemmas tmpl_eval = embed_def embed_one_parse closer_val cons_item_def escape_of_def
  is_digit_def is_octdigit_def is_ascii_letter_def tmpl_scan_nm opener_val lit_def

lemma escape_reads:
  "read_text (template_path BASIC) escape_world = Inr [92, 117]"
  "read_text (template_path TIMELOCK) escape_world = Inr (lit ''new'')"
  "read_text (template_path WEIGHTED) escape_world = Inr []"
  "read_text cli_path escape_world = Inr (opener TIMELOCK @ lit ''OLD'' @ closer)"
  by (simp_all add: escape_world_def read_eval)

lemma escape_embed_one:
  "embed_one BASIC [92, 117] c = Inl TemplateError"
  by (simp add: embed_one_parse closer_val escape_of_def is_digit_def is_ascii_letter_def)

lemma escape_no_region:
  "re_match (tmpl_pattern BASIC) (drop k (opener TIMELOCK @ lit ''OLD'' @ closer)) = None"
proof -
  have "find_sub (opener BASIC) (opener TIMELOCK @ lit ''OLD'' @ closer) = None"
    by (simp add: opener_val closer_val lit_def)
  from find_sub_None [OF this, of k] show ?thesis
    by (simp del: re_match.simps add: tmpl_pattern_def re_match_tmpl)
qed

text \<open>
  C5 at a template that \<^verbatim>\<open>re\<close> rejects: the basic template file holds a backslash and the
  letter u, the target holds no region for basic (the pattern matches at no position of
  its text) and one for timelock.  The substitution for basic raises, the run aborts with
  that error, and the substitutions for timelock and weighted are not applied: the world
  after the run is the world before it.
\<close>

theorem rejected_template_aborts_without_match:
  "read_text (template_path BASIC) escape_world = Inr [92, 117]
   \<and> read_text cli_path escape_world = Inr (opener TIMELOCK @ lit ''OLD'' @ closer)
   \<and> (\<forall>k. re_match (tmpl_pattern BASIC) (drop k (opener TIMELOCK @ lit ''OLD'' @ closer)) = None)
   \<and> embed_one BASIC [92, 117] (opener TIMELOCK @ lit ''OLD'' @ closer) = Inl TemplateError
   \<and> regenerate_templates escape_world = (Some TemplateError, escape_world)"
proof -
  have "embed [92, 117] (lit ''new'') [] (opener TIMELOCK @ lit ''OLD'' @ closer) = Inl TemplateError"
    by (simp add: embed_def escape_embed_one)
  from run_eval_error [OF escape_reads this] escape_reads escape_embed_one escape_no_region
  show ?thesis by simp
qed

lemma group_reads:
  "read_text (template_path BASIC) group_world = Inr [92, 103, 60, 48, 62]"
  "read_text (template_path TIMELOCK) group_world = Inr []"
  "read_text (template_path WEIGHTED) group_world = Inr []"
  "read_text cli_path group_world
     = Inr (opener BASIC @ lit ''a'' @ closer @ opener BASIC @ lit ''b'' @ closer)"
  by (simp_all add: group_world_def read_eval)

lemma group_embed:
  "embed [92, 103, 60, 48, 62] [] []
     (opener BASIC @ lit ''a'' @ closer @ opener BASIC @ lit ''b'' @ closer)
   = Inr (opener BASIC @ (opener BASIC @ lit ''a'' @ closer) @ closer
          @ opener BASIC @ (opener BASIC @ lit ''b'' @ closer) @ closer)"
  by (simp add: tmpl_eval)

lemma group_encode:
  "utf8_encode (opener BASIC @ (opener BASIC @ lit ''a'' @ closer) @ closer
          @ opener BASIC @ (opener BASIC @ lit ''b'' @ closer) @ closer)
   = Some (decl ''BASIC'' (decl ''BASIC'' ''a'') @ decl ''BASIC'' (decl ''BASIC'' ''b''))"
proof -
  let ?bs = "decl ''BASIC'' (decl ''BASIC'' ''a'') @ decl ''BASIC'' (decl ''BASIC'' ''b'')"
  have "opener BASIC @ (opener BASIC @ lit ''a'' @ closer) @ closer
          @ opener BASIC @ (opener BASIC @ lit ''b'' @ closer) @ closer = lit ?bs"
    by (simp add: opener_def closer_def lit_def decl_def)
  moreover have "utf8_encode (lit ?bs) = Some ?bs"
    by (rule utf8_encode_lit) (simp add: decl_def)
  ultimately show ?thesis by simp
qed

text \<open>
  C9 at a template with a reference to the whole match: the basic template file holds a
  backslash and \<^verbatim>\<open>g<0>\<close>, the target holds two declarations for basic, with the payloads a
  and b.  Both are replaced, each by a declaration around its own old text, so the two
  regions differ after the run.
\<close>

theorem group_reference_regions_differ:
  "read_text (template_path BASIC) group_world = Inr [92, 103, 60, 48, 62]
   \<and> files group_world cli_path = Some (decl ''BASIC'' ''a'' @ decl ''BASIC'' ''b'')
   \<and> fst (regenerate_templates group_world) = None
   \<and> files (snd (regenerate_templates group_world)) cli_path
       = Some (decl ''BASIC'' (decl ''BASIC'' ''a'') @ decl ''BASIC'' (decl ''BASIC'' ''b''))
   \<and> decl ''BASIC'' (decl ''BASIC'' ''a'') \<noteq> decl ''BASIC'' (decl ''BASIC'' ''b'')"
proof -
  have w: "can_write group_world cli_path" and enc: "encoding group_world = UTF8"
    by (simp_all add: group_world_def world_of_def)
  from run_eval [OF group_reads group_embed w group_encode enc]
  have "fst (regenerate_templates group_world) = None"
    and "files (snd (regenerate_templates group_world)) cli_path
       = Some (decl ''BASIC'' (decl ''BASIC'' ''a'') @ decl ''BASIC'' (decl ''BASIC'' ''b''))"
    by (simp_all add: print_all_files store_files)
  moreover have "files group_world cli_path = Some (decl ''BASIC'' ''a'' @ decl ''BASIC'' ''b'')"
    by (simp add: group_world_def world_of_def cli_path_def)
  moreover have "decl ''BASIC'' (decl ''BASIC'' ''a'') \<noteq> decl ''BASIC'' (decl ''BASIC'' ''b'')"
    by (simp add: decl_def)
  ultimately show ?thesis using group_reads(1) by simp
qed

section \<open>The counts of the report\<close>

lemma accent_reads:
  "read_text (template_path BASIC) accent_world = Inr [233]"
  "read_text (template_path TIMELOCK) accent_world = Inr []"
  "read_text (template_path WEIGHTED) accent_world = Inr []"
  "read_text cli_path accent_world = Inr []"
  by (simp_all add: accent_world_def read_eval)

lemma accent_embed: "embed [233] [] [] [] = Inr []"
  by (simp add: tmpl_eval)

lemma accent_encode: "utf8_encode [233] = Some [CHR 0xC3, CHR 0xA9]"
  by (simp add: utf8_encode_def enc_cp_def char_of_eq_iff take_bit_eq_mod)

lemma accent_report:
  "report [233] [] [] =
     [success_line, lit ''  Basic template: 1 bytes'', lit ''  Timelock template: 0 bytes'',
      lit ''  Weighted template: 0 bytes'']"
  by (simp add: report_def report_line_def lit_def str_of_nat.simps)

text \<open>
  C4 at a template outside ASCII: the basic template file holds the two bytes of the
  letter e with an acute accent.  Read as text it is one character, which encodes to the
  same two bytes; the report of the run gives the count 1 for it, under the word bytes.
\<close>

theorem report_counts_characters:
  "files accent_world (template_path BASIC) = Some [CHR 0xC3, CHR 0xA9]
   \<and> read_text (template_path BASIC) accent_world = Inr [233]
   \<and> utf8_encode [233] = Some [CHR 0xC3, CHR 0xA9]
   \<and> fst (regenerate_templates accent_world) = None
   \<and> printed (effects accent_world (snd (regenerate_templates accent_world)))
       = [success_line, lit ''  Basic template: 1 bytes'', lit ''  Timelock template: 0 bytes'',
          lit ''  Weighted template: 0 bytes'']"
proof -
  have w: "can_write accent_world cli_path" and enc: "encoding accent_world = UTF8"
    by (simp_all add: accent_world_def world_of_def)
  have e: "utf8_encode [] = Some []"
    by (simp add: utf8_encode_def)
  from run_eval [OF accent_reads accent_embed w e enc]
  have r: "regenerate_templates accent_world
      = (None, print_all (report [233] [] []) (store cli_path [] accent_world))" .
  have "effects accent_world (print_all (report [233] [] []) (store cli_path [] accent_world))
      = Wrote cli_path [] # map Printed (report [233] [] [])"
    by (rule effects_append) (simp add: success_trace)
  then have "printed (effects accent_world (snd (regenerate_templates accent_world)))
      = report [233] [] []"
    using printed_map_Printed [of "report [233] [] []"] by (simp add: r printed_def)
  moreover have "files accent_world (template_path BASIC) = Some [CHR 0xC3, CHR 0xA9]"
    by (simp add: accent_world_def world_of_def)
  ultimately show ?thesis using r accent_reads(1) accent_encode accent_report by simp
qed

section \<open>Running the script twice\<close>

lemma prefix_short: "prefix p (u @ z) \<Longrightarrow> length p \<le> length u \<Longrightarrow> prefix p u"
  by (auto simp: prefix_append)

lemma find_sub_append:
  assumes "find_sub p a = Some i"
  shows "find_sub p (a @ z) = Some i"
proof (rule find_sub_eqI)
  from find_sub_Some_prefix [OF assms] have pi: "prefix p (drop i a)" .
  from find_sub_Some_le [OF assms] have le: "i \<le> length a" .
  from pi le show "prefix p (drop i (a @ z))" by (simp add: prefix_prefix)
  from le show "i \<le> length (a @ z)" by simp
  fix k assume k: "k < i"
  from pi have "length p \<le> length a - i" using prefix_length_le by fastforce
  with k le have "length p \<le> length (drop k a)" by simp
  moreover from k le have "drop k (a @ z) = drop k a @ z" by simp
  ultimately show "\<not> prefix p (drop k (a @ z))"
    using find_sub_Some_first [OF assms k] prefix_short by metis
qed

lemma find_sub_within:
  assumes "find_sub p (a @ z) = Some i" and "i + length p \<le> length a"
  shows "find_sub p a = Some i"
proof (rule find_sub_eqI)
  from assms(2) have "drop i (a @ z) = drop i a @ z" "length p \<le> length (drop i a)" by simp_all
  with find_sub_Some_prefix [OF assms(1)] show "prefix p (drop i a)"
    using prefix_short by metis
  from assms(2) show "i \<le> length a" by simp
  fix k assume k: "k < i"
  with assms(2) have "drop k (a @ z) = drop k a @ z" by simp
  with find_sub_Some_first [OF assms(1) k] show "\<not> prefix p (drop k a)"
    by (metis prefix_prefix)
qed

lemma find_sub_split:
  assumes "find_sub p t = Some i"
  shows "t = take i t @ p @ drop (i + length p) t"
proof -
  from find_sub_Some_prefix [OF assms] obtain r where "drop i t = p @ r"
    by (auto simp: prefix_def)
  then have "drop (i + length p) t = r"
    by (metis add.commute append_eq_conv_conj drop_drop)
  with \<open>drop i t = p @ r\<close> show ?thesis
    by (metis append_take_drop_id)
qed

lemma opener_head: "\<exists>P'. opener nm = 99 # P' \<and> 99 \<notin> set P'"
  by (cases nm) (simp_all add: opener_val)

lemma opener_last: "\<exists>P0. opener nm = P0 @ [34] \<and> 34 \<notin> set P0"
  by (cases nm) (simp_all add: opener_def lit_def)

lemma subst_scan:
  "subst nm body x =
     (case find_sub (opener nm) x of
        None \<Rightarrow> x
      | Some i \<Rightarrow>
          (case find_sub closer (drop (i + length (opener nm)) x) of
             None \<Rightarrow> x
           | Some j \<Rightarrow>
               take i x @ tmpl_repl nm body
               @ subst nm body (drop (i + (length (opener nm) + (j + 3))) x)))"
  unfolding subst_def by (rule tmpl_scan_nm)

lemma seg_drop:
  assumes "seg s"
  shows "seg (drop k s)"
proof (cases "k \<le> length s")
  case False
  then show ?thesis by (simp add: seg_def closer_val)
next
  case True
  from assms have f: "find_sub closer (s @ closer) = Some (length s)" by (simp add: seg_def)
  have "find_sub closer (drop k s @ closer) = Some (length s - k)"
  proof (rule find_sub_eqI)
    from True show "prefix closer (drop (length s - k) (drop k s @ closer))" by simp
    show "length s - k \<le> length (drop k s @ closer)" by simp
    fix j assume "j < length s - k"
    then have "j + k < length s" by simp
    from find_sub_Some_first [OF f this] True \<open>j + k < length s\<close>
    show "\<not> prefix closer (drop j (drop k s @ closer))" by (simp add: add.commute)
  qed
  then show ?thesis by (simp add: seg_def)
qed

lemma seg_take:
  assumes "seg s"
  shows "find_sub closer (take k s) = None"
proof (rule ccontr)
  assume "find_sub closer (take k s) \<noteq> None"
  then obtain j where j: "find_sub closer (take k s) = Some j" by blast
  have "take k s @ (drop k s @ closer) = s @ closer" by simp
  with find_sub_append [OF j, of "drop k s @ closer"]
  have "find_sub closer (s @ closer) = Some j" by simp
  with assms have "j = length s" by (simp add: seg_def)
  moreover from find_sub_Some_prefix [OF j] have "length closer \<le> length (take k s) - j"
    using prefix_length_le by fastforce
  ultimately show False by (simp add: closer_val)
qed

lemma no_opener_before_rest:
  assumes n: "find_sub (opener nm) (s @ [34]) = None" and k: "k < length s + 3"
  shows "\<not> prefix (opener nm) (drop k (s @ closer @ rest))"
proof
  assume p: "prefix (opener nm) (drop k (s @ closer @ rest))"
  obtain P' where P': "opener nm = 99 # P'" using opener_head by blast
  obtain P0 where P0: "opener nm = P0 @ [34]" "34 \<notin> set P0" using opener_last by blast
  show False
  proof (cases "k < length s")
    case False
    then obtain d where d: "k = length s + d" "d < 3"
      using k by (metis add_diff_inverse_nat nat_add_left_cancel_less)
    then have "d = 0 \<or> d = 1 \<or> d = 2" by auto
    with p d P' show False by (auto simp: closer_val)
  next
    case True
    let ?u = "drop k s"
    from True have dk: "drop k (s @ closer @ rest) = (?u @ [34]) @ 35 # 59 # rest"
      by (simp add: closer_val)
    show False
    proof (cases "length (opener nm) \<le> length ?u + 1")
      case True
      with p dk have "prefix (opener nm) (?u @ [34])"
        using prefix_short [of "opener nm" "?u @ [34]" "35 # 59 # rest"] by simp
      moreover from \<open>k < length s\<close> have "drop k (s @ [34]) = ?u @ [34]" by simp
      ultimately show False using find_sub_None [OF n, of k] by simp
    next
      case False
      from p have "prefix (opener nm) ((?u @ [34]) @ 35 # 59 # rest)" unfolding dk .
      then have "prefix (opener nm) (?u @ [34])
          \<or> (\<exists>us. opener nm = (?u @ [34]) @ us \<and> prefix us (35 # 59 # rest))"
        by (simp only: prefix_append)
      moreover have "\<not> prefix (opener nm) (?u @ [34])"
        using False prefix_length_le by fastforce
      ultimately obtain us where us: "opener nm = (?u @ [34]) @ us" by blast
      with False have "us \<noteq> []" by auto
      then obtain us' z where "us = us' @ [z]" by (metis rev_exhaust)
      with us P0 have "P0 = ?u @ 34 # us'" by simp
      with P0(2) show False by simp
    qed
  qed
qed

lemma subst_seg_none:
  assumes "find_sub (opener nm) (s @ [34]) = None"
  shows "subst nm body (s @ closer @ rest) = s @ closer @ subst nm body rest"
proof -
  have "sub_loop (tmpl_pattern nm) (\<lambda>m. tmpl_repl nm body) (s @ closer @ rest)
      = take (length s + 3) (s @ closer @ rest)
        @ sub_loop (tmpl_pattern nm) (\<lambda>m. tmpl_repl nm body) (drop (length s + 3) (s @ closer @ rest))"
  proof (rule sub_loop_skip)
    fix k assume "k < length s + 3"
    from no_opener_before_rest [OF assms this]
    show "re_match (tmpl_pattern nm) (drop k (s @ closer @ rest)) = None"
      by (simp del: re_match.simps add: tmpl_pattern_def re_match_tmpl)
  next
    show "length s + 3 \<le> length (s @ closer @ rest)" by (simp add: closer_val)
  qed
  then show ?thesis by (simp add: subst_def closer_val)
qed

lemma subst_seg_inside:
  assumes s: "seg s" and i: "find_sub (opener nm) s = Some i"
  shows "subst nm body (s @ closer @ rest) = take i s @ tmpl_repl nm body @ subst nm body rest"
proof -
  let ?P = "opener nm" and ?t = "s @ closer @ rest"
  from find_sub_Some_prefix [OF i] have "length ?P \<le> length s - i"
    using prefix_length_le by fastforce
  moreover from find_sub_Some_le [OF i] have "i \<le> length s" .
  ultimately have le: "i + length ?P \<le> length s" using opener_nonempty [of nm] by (cases "i = length s") auto
  have h1: "find_sub ?P ?t = Some i" by (rule find_sub_append [OF i])
  from seg_drop [OF s, of "i + length ?P"]
  have "find_sub closer (drop (i + length ?P) s @ closer) = Some (length s - (i + length ?P))"
    by (simp add: seg_def)
  from find_sub_append [OF this, of rest] le
  have h2: "find_sub closer (drop (i + length ?P) ?t) = Some (length s - (i + length ?P))"
    by simp
  from le have e: "i + (length ?P + (length s - (i + length ?P) + 3)) = length s + 3" by simp
  have "drop (length s + 3) ?t = rest" by (simp add: closer_val)
  moreover from \<open>i \<le> length s\<close> have "take i ?t = take i s" by simp
  ultimately show ?thesis
    by (subst subst_scan) (simp only: h1 h2 option.case e)
qed

lemma subst_seg_overlap:
  assumes s: "seg s" and n: "find_sub (opener nm) s = None"
    and i: "find_sub (opener nm) (s @ [34]) = Some i"
  shows "subst nm body (s @ closer @ rest) =
           (case find_sub closer rest of
              None \<Rightarrow> s @ closer @ rest
            | Some j \<Rightarrow> take i s @ tmpl_repl nm body @ subst nm body (drop (j + 3) rest))"
proof -
  let ?P = "opener nm" and ?t = "s @ closer @ rest"
  have t: "?t = (s @ [34]) @ 35 # 59 # rest" by (simp add: closer_val)
  from find_sub_Some_prefix [OF i] have "length ?P \<le> length (s @ [34]) - i"
    using prefix_length_le by fastforce
  moreover from find_sub_Some_le [OF i] have "i \<le> length (s @ [34])" .
  ultimately have le: "i + length ?P \<le> length s + 1" by simp
  have "\<not> i + length ?P \<le> length s"
    using find_sub_within [OF i] n by auto
  with le have eq: "i + length ?P = length s + 1" by simp
  with opener_nonempty [of nm] have il: "i \<le> length s" by (cases ?P) auto
  have h1: "find_sub ?P ?t = Some i" unfolding t by (rule find_sub_append [OF i])
  have d: "drop (i + length ?P) ?t = 35 # 59 # rest" by (simp add: eq closer_val)
  have h2: "find_sub closer (35 # 59 # rest) = map_option (\<lambda>j. j + 2) (find_sub closer rest)"
    by (simp add: closer_val option.map_comp comp_def)
  have dr: "drop (i + (length ?P + (j + 2 + 3))) ?t = drop (j + 3) rest" for j
  proof -
    have "i + (length ?P + (j + 2 + 3)) = (j + 3) + (length s + 3)" using eq by simp
    then have "drop (i + (length ?P + (j + 2 + 3))) ?t = drop (j + 3) (drop (length s + 3) ?t)"
      by (simp only: drop_drop)
    also have "drop (length s + 3) ?t = rest" by (simp add: closer_val)
    finally show ?thesis .
  qed
  from il have tk: "take i ?t = take i s" by simp
  show ?thesis
  proof (cases "find_sub closer rest")
    case None
    then have h3: "find_sub closer (drop (i + length ?P) ?t) = None"
      by (simp only: d h2 option.map)
    show ?thesis
      by (subst subst_scan) (simp only: h1 h3 option.case None)
  next
    case (Some j)
    then have h3: "find_sub closer (drop (i + length ?P) ?t) = Some (j + 2)"
      by (simp only: d h2 option.map)
    show ?thesis
      by (subst subst_scan) (simp only: h1 h3 option.case dr tk Some)
  qed
qed

lemma subst_no_closer: "find_sub closer t = None \<Longrightarrow> subst nm body t = t"
proof -
  assume n: "find_sub closer t = None"
  have "find_sub closer (drop (length (opener nm)) t) = None"
  proof (rule ccontr)
    assume "find_sub closer (drop (length (opener nm)) t) \<noteq> None"
    then obtain j where "find_sub closer (drop (length (opener nm)) t) = Some j" by blast
    from find_sub_Some_prefix [OF this] find_sub_None [OF n, of "j + length (opener nm)"]
    show False by simp
  qed
  then show ?thesis
    unfolding subst_def tmpl_pattern_def by (rule tmpl_no_closer)
qed

lemma closer_decompose:
  assumes "find_sub closer t = Some n"
  shows "t = take n t @ closer @ drop (n + 3) t" and "seg (take n t)"
proof -
  from find_sub_split [OF assms] show t: "t = take n t @ closer @ drop (n + 3) t"
    by (simp add: closer_length)
  from find_sub_Some_le [OF assms] have le: "n \<le> length t" .
  have "find_sub closer ((take n t @ closer) @ drop (n + 3) t) = Some n"
    using assms t by simp
  then have "find_sub closer (take n t @ closer) = Some n"
    by (rule find_sub_within) (use le in \<open>simp add: closer_length\<close>)
  with le show "seg (take n t)" by (simp add: seg_def)
qed

lemma seg_prefix:
  assumes "seg s"
  shows "seg (take k s)"
proof -
  let ?u = "take k s"
  have "find_sub closer (?u @ closer) = Some (length ?u)"
  proof (rule find_sub_eqI)
    show "prefix closer (drop (length ?u) (?u @ closer))" by simp
    show "length ?u \<le> length (?u @ closer)" by simp
    fix j assume j: "j < length ?u"
    show "\<not> prefix closer (drop j (?u @ closer))"
    proof
      assume p: "prefix closer (drop j (?u @ closer))"
      from j have d: "drop j (?u @ closer) = drop j ?u @ closer" by simp
      show False
      proof (cases "3 \<le> length (drop j ?u)")
        case True
        with p d have "prefix closer (drop j ?u)"
          using prefix_short [of closer "drop j ?u" closer] by (simp add: closer_length)
        then have "find_sub closer ?u \<noteq> None"
          using find_sub_None [of closer ?u j] by blast
        with seg_take [OF assms, of k] show False by simp
      next
        case False
        with j obtain a where "drop j ?u = [a] \<or> (\<exists>b. drop j ?u = [a, b])"
          by (cases "drop j ?u"; cases "tl (drop j ?u)"; cases "tl (tl (drop j ?u))") auto
        with p d show False by (auto simp: closer_val)
      qed
    qed
  qed
  then show ?thesis by (simp add: seg_def)
qed

lemma seg_new:
  assumes u: "seg u" and x: "clean x"
  shows "seg (u @ opener nm @ x)"
proof -
  obtain P' where P': "opener nm = 99 # P'" using opener_head by blast
  obtain P0 where P0: "opener nm = P0 @ [34]" "34 \<notin> set P0" using opener_last by blast
  let ?t = "(u @ opener nm @ x) @ closer"
  have t: "?t = (u @ P0) @ (34 # x @ closer)" by (simp add: P0)
  have "find_sub closer ?t = Some (length (u @ opener nm @ x))"
  proof (rule find_sub_eqI)
    show "prefix closer (drop (length (u @ opener nm @ x)) ?t)" by simp
    show "length (u @ opener nm @ x) \<le> length ?t" by simp
    fix k assume k: "k < length (u @ opener nm @ x)"
    show "\<not> prefix closer (drop k ?t)"
    proof
      assume p: "prefix closer (drop k ?t)"
      show False
      proof (cases "length (u @ P0) \<le> k")
        case True
        then obtain d where d: "k = length (u @ P0) + d" using le_Suc_ex by blast
        with k have "d < Suc (length x)" by (simp add: P0)
        moreover from d have "drop k ?t = drop d (34 # x @ closer)"
          unfolding t by (simp del: append_assoc)
        ultimately show False
          using p find_sub_Some_first [OF x [unfolded clean_def], of d] by simp
      next
        case False
        then have kl: "k < length u + length P0" by simp
        show False
        proof (cases "k < length u")
          case False
          with kl obtain d where d: "k = length u + d" "d < length P0"
            by (metis add_diff_inverse_nat nat_add_left_cancel_less)
          then have "drop k ?t = drop d P0 @ 34 # x @ closer" unfolding t by simp
          moreover from d obtain a r where "drop d P0 = a # r"
            by (cases "drop d P0") auto
          moreover from this have "a \<in> set P0" by (metis in_set_dropD list.set_intros(1))
          ultimately show False using p P0(2) by (auto simp: closer_val)
        next
          case True
          let ?v = "drop k u"
          from True have dk: "drop k ?t = ?v @ 99 # (P' @ x @ closer)" by (simp add: P')
          show False
          proof (cases "3 \<le> length ?v")
            case True
            with p dk have "prefix closer ?v"
              using prefix_short [of closer ?v "99 # (P' @ x @ closer)"] by (simp add: closer_length)
            then have "prefix closer (drop k (u @ closer))" using \<open>k < length u\<close>
              by (simp add: prefix_prefix)
            with find_sub_Some_first [OF u [unfolded seg_def] \<open>k < length u\<close>] show False by simp
          next
            case False
            with \<open>k < length u\<close> obtain a where "?v = [a] \<or> (\<exists>b. ?v = [a, b])"
              by (cases ?v; cases "tl ?v"; cases "tl (tl ?v)") auto
            with p dk show False by (auto simp: closer_val)
          qed
        qed
      qed
    qed
  qed
  then show ?thesis by (simp add: seg_def)
qed

lemma find_sub_opener_bound:
  assumes "find_sub (opener nm) s = Some i"
  shows "i + length (opener nm) \<le> length s"
proof -
  from find_sub_Some_prefix [OF assms] have "length (opener nm) \<le> length (drop i s)"
    by (rule prefix_length_le)
  with opener_nonempty [of nm] show ?thesis by (cases "i \<le> length s") auto
qed

text \<open>The segment that a substitution leaves where it replaced a region.\<close>

lemma new_seg:
  assumes s: "seg s" and x: "clean body" and i: "find_sub (opener nm) (take i s @ opener nm) = Some i"
  shows "seg (take i s @ opener nm @ body)"
    and "find_sub (opener nm) (take i s @ opener nm @ body) = Some i"
proof -
  show "seg (take i s @ opener nm @ body)"
    by (rule seg_new [OF seg_prefix [OF s] x])
  from find_sub_append [OF i, of body]
  show "find_sub (opener nm) (take i s @ opener nm @ body) = Some i" by simp
qed

lemma subst_new_seg:
  assumes s: "seg s" and x: "clean body" and i: "find_sub (opener nm) (take i s @ opener nm) = Some i"
    and il: "i \<le> length s"
  shows "subst nm body (take i s @ tmpl_repl nm body @ rest)
       = take i s @ tmpl_repl nm body @ subst nm body rest"
proof -
  let ?s' = "take i s @ opener nm @ body"
  from new_seg [OF s x i] have a: "seg ?s'" and b: "find_sub (opener nm) ?s' = Some i" .
  from il have "take i ?s' = take i s" by simp
  with subst_seg_inside [OF a b, of body rest] show ?thesis
    by (simp add: tmpl_repl_def)
qed

text \<open>Where an opener ends on the quote of the closing delimiter.\<close>

lemma overlap_position:
  assumes n: "find_sub (opener nm) s = None" and i: "find_sub (opener nm) (s @ [34]) = Some i"
  shows "i + length (opener nm) = length s + 1" and "i \<le> length s"
    and "take i s @ opener nm = s @ [34]"
proof -
  from find_sub_opener_bound [OF i] have le: "i + length (opener nm) \<le> length s + 1" by simp
  have "\<not> i + length (opener nm) \<le> length s"
    using find_sub_within [OF i] n by auto
  with le show eq: "i + length (opener nm) = length s + 1" by simp
  with opener_nonempty [of nm] show il: "i \<le> length s" by (cases "opener nm") auto
  from find_sub_split [OF i] il eq show "take i s @ opener nm = s @ [34]" by simp
qed

lemma inside_position:
  assumes i: "find_sub (opener nm) s = Some i"
  shows "i \<le> length s" and "find_sub (opener nm) (take i s @ opener nm) = Some i"
proof -
  from find_sub_opener_bound [OF i] show il: "i \<le> length s" by simp
  have "find_sub (opener nm) ((take i s @ opener nm) @ drop (i + length (opener nm)) s) = Some i"
    using find_sub_split [OF i] i by simp
  then show "find_sub (opener nm) (take i s @ opener nm) = Some i"
    by (rule find_sub_within) (use il in simp)
qed

lemma rest_shorter:
  assumes "find_sub closer t = Some n"
  shows "length (drop (n + 3) t) < length t"
proof -
  from find_sub_Some_prefix [OF assms] have "length closer \<le> length (drop n t)"
    by (rule prefix_length_le)
  then show ?thesis by (simp add: closer_length)
qed

lemma subst_idem:
  assumes x: "clean body"
  shows "subst nm body (subst nm body t) = subst nm body t"
proof (induction "length t" arbitrary: t rule: less_induct)
  case less
  show ?case
  proof (cases "find_sub closer t")
    case None
    then show ?thesis by (simp add: subst_no_closer)
  next
    case (Some n)
    let ?s = "take n t" and ?rest = "drop (n + 3) t"
    from closer_decompose [OF Some] have t: "t = ?s @ closer @ ?rest" and s: "seg ?s" .
    from rest_shorter [OF Some] have sh: "length ?rest < length t" .
    note IH = less [OF sh]
    show ?thesis
    proof (cases "find_sub (opener nm) ?s")
      case (Some i)
      from inside_position [OF Some]
      have il: "i \<le> length ?s" and fi: "find_sub (opener nm) (take i ?s @ opener nm) = Some i" .
      have e: "subst nm body t = take i ?s @ tmpl_repl nm body @ subst nm body ?rest"
        using subst_seg_inside [OF s Some, of body ?rest] t by simp
      show ?thesis
        unfolding e by (simp only: subst_new_seg [OF s x fi il] IH)
    next
      case None
      note n = None
      show ?thesis
      proof (cases "find_sub (opener nm) (?s @ [34])")
        case None
        have e: "subst nm body t = ?s @ closer @ subst nm body ?rest"
          using subst_seg_none [OF None, of body ?rest] t by simp
        show ?thesis
          unfolding e by (simp only: subst_seg_none [OF None] IH)
      next
        case (Some i)
        have e: "subst nm body t =
           (case find_sub closer ?rest of
              None \<Rightarrow> t
            | Some j \<Rightarrow> take i ?s @ tmpl_repl nm body @ subst nm body (drop (j + 3) ?rest))"
          using subst_seg_overlap [OF s n Some, of body ?rest] by (simp only: t [symmetric])
        show ?thesis
        proof (cases "find_sub closer ?rest")
          case None
          with e have "subst nm body t = t" by simp
          then show ?thesis by simp
        next
          case (Some j)
          let ?r2 = "drop (j + 3) ?rest"
          from Some e have e': "subst nm body t = take i ?s @ tmpl_repl nm body @ subst nm body ?r2"
            by simp
          have "length ?r2 < length t" using sh by simp
          note IH2 = less [OF this]
          from overlap_position [OF n \<open>find_sub (opener nm) (?s @ [34]) = Some i\<close>]
          have il: "i \<le> length ?s" and tk: "take i ?s @ opener nm = ?s @ [34]" by simp_all
          from tk \<open>find_sub (opener nm) (?s @ [34]) = Some i\<close>
          have fi: "find_sub (opener nm) (take i ?s @ opener nm) = Some i" by simp
          show ?thesis
            unfolding e' by (simp only: subst_new_seg [OF s x fi il] IH2)
        qed
      qed
    qed
  qed
qed

lemma find_sub_None_prefix:
  assumes "find_sub p (a @ z) = None"
  shows "find_sub p a = None"
proof (cases "find_sub p a")
  case None
  then show ?thesis .
next
  case (Some i)
  from find_sub_append [OF Some, of z] assms show ?thesis by simp
qed

lemma find_sub_NoneI: "(\<And>k. \<not> prefix p (drop k t)) \<Longrightarrow> find_sub p t = None"
  by (cases "find_sub p t") (auto dest: find_sub_Some_prefix)

lemma prefix_drop_bound:
  assumes "prefix p (drop k t)" and "p \<noteq> []"
  shows "k + length p \<le> length t"
proof -
  from assms(1) have "length p \<le> length t - k" using prefix_length_le by fastforce
  moreover from assms have "k < length t" by (cases "k < length t") auto
  ultimately show ?thesis by simp
qed

lemma prefix_drop_nth:
  assumes p: "prefix p (drop k t)" and "k \<le> q" and "q < k + length p"
  shows "t ! q = p ! (q - k)"
proof -
  from p obtain r where r: "drop k t = p @ r" by (auto simp: prefix_def)
  from assms have ne: "p \<noteq> []" by auto
  from prefix_drop_bound [OF p ne] have "k \<le> length t" by simp
  then have "drop k t ! (q - k) = t ! (k + (q - k))" by (rule nth_drop)
  moreover from assms(2,3) have "q - k < length p" by arith
  ultimately show ?thesis using assms(2) by (simp add: r nth_append)
qed

text \<open>An opener holds the double quote at its end only, the letter c at its start only.\<close>

lemma opener_quote:
  assumes p: "prefix (opener nm) (drop k t)" and "k \<le> q" and "q < k + length (opener nm)"
    and "t ! q = 34"
  shows "Suc q = k + length (opener nm)"
proof -
  obtain P0 where P0: "opener nm = P0 @ [34]" "34 \<notin> set P0" using opener_last by blast
  from prefix_drop_nth [OF p assms(2,3)] assms(4) have e: "opener nm ! (q - k) = 34" by simp
  have "\<not> q - k < length P0"
  proof
    assume l: "q - k < length P0"
    then have "opener nm ! (q - k) = P0 ! (q - k)" by (simp add: P0 nth_append)
    with e l P0(2) show False by (metis nth_mem)
  qed
  with assms(2,3) show ?thesis by (simp add: P0)
qed

lemma opener_in_parts:
  assumes "prefix (opener nm) (drop k (u @ 34 # w))"
  shows "k + length (opener nm) \<le> Suc (length u) \<or> Suc (length u) \<le> k"
proof (rule ccontr)
  assume "\<not> ?thesis"
  then have a: "k \<le> length u" "length u < k + length (opener nm)"
    and b: "Suc (length u) < k + length (opener nm)" by simp_all
  have "(u @ 34 # w) ! length u = 34" by simp
  from opener_quote [OF assms a this] b show False by simp
qed

lemma no_opener_join:
  assumes a: "find_sub (opener nm) (u @ [34]) = None"
    and b: "find_sub (opener nm) (v @ [34]) = None"
  shows "find_sub (opener nm) (u @ 34 # v @ [34]) = None"
proof (rule find_sub_NoneI)
  fix k
  show "\<not> prefix (opener nm) (drop k (u @ 34 # v @ [34]))"
  proof
    assume p: "prefix (opener nm) (drop k (u @ 34 # v @ [34]))"
    from opener_in_parts [OF p]
    consider "k + length (opener nm) \<le> Suc (length u)" | "Suc (length u) \<le> k" by blast
    then show False
    proof cases
      case 1
      with opener_nonempty [of nm] have "k \<le> length u" by (cases "opener nm") auto
      then have "drop k (u @ 34 # v @ [34]) = drop k (u @ [34]) @ (v @ [34])" by simp
      with p have "prefix (opener nm) (drop k (u @ [34]) @ (v @ [34]))" by simp
      then have "prefix (opener nm) (drop k (u @ [34]))"
        by (rule prefix_short) (use 1 in simp)
      with find_sub_None [OF a] show False by blast
    next
      case 2
      then obtain d where d: "k = Suc (length u) + d" using le_Suc_ex by blast
      have "drop k (u @ 34 # v @ [34]) = drop d (v @ [34])" unfolding d by simp
      with p find_sub_None [OF b] show False by simp
    qed
  qed
qed

lemma opener_same_start:
  assumes p: "prefix (opener nm) (drop i t)" and p': "prefix (opener nm') (drop j t)"
    and "i \<le> j" and "j < i + length (opener nm)"
  shows "j = i"
proof (rule ccontr)
  assume ne: "j \<noteq> i"
  obtain Pt where Pt: "opener nm = 99 # Pt" "99 \<notin> set Pt" using opener_head by blast
  obtain Pt' where Pt': "opener nm' = 99 # Pt'" using opener_head by blast
  have "t ! j = opener nm' ! (j - j)"
    by (rule prefix_drop_nth [OF p']) (simp_all add: Pt')
  then have "t ! j = 99" by (simp add: Pt')
  moreover have "t ! j = opener nm ! (j - i)"
    by (rule prefix_drop_nth [OF p assms(3,4)])
  ultimately have e: "opener nm ! (j - i) = 99" by simp
  from ne assms(3) obtain d where d: "j - i = Suc d" by (cases "j - i") simp_all
  with assms(4) have "d < length Pt" by (simp add: Pt)
  with e d Pt show False by (metis nth_Cons_Suc nth_mem)
qed

lemma opener_prefix_inj: "prefix (opener nm) (opener nm') \<Longrightarrow> nm = nm'"
  by (cases nm; cases nm') (simp_all add: opener_val)

lemma openers_disjoint:
  assumes ne: "nm \<noteq> nm'"
    and p: "prefix (opener nm) (drop i t)" and p': "prefix (opener nm') (drop j t)"
  shows "i + length (opener nm) \<le> j \<or> j + length (opener nm') \<le> i"
proof (rule ccontr)
  assume n: "\<not> ?thesis"
  have "i = j"
  proof (cases "i \<le> j")
    case True
    with opener_same_start [OF p p'] n show ?thesis by simp
  next
    case False
    with opener_same_start [OF p' p] n show ?thesis by simp
  qed
  with p p' obtain r r' where "opener nm @ r = opener nm' @ r'"
    by (metis prefix_def)
  then have "prefix (opener nm) (opener nm') \<or> prefix (opener nm') (opener nm)"
    by (metis append_eq_append_conv2 prefix_def)
  with opener_prefix_inj ne show False by blast
qed

lemma seg_append_closer:
  assumes "seg a"
  shows "find_sub closer (a @ closer @ r) = Some (length a)"
  using find_sub_append [of closer "a @ closer" "length a" r] assms by (simp add: seg_def)

lemma clean_seg: "clean x \<Longrightarrow> seg x"
proof -
  assume c: "clean x"
  have "find_sub closer (x @ closer) = Some (length x)"
  proof (rule find_sub_eqI)
    show "prefix closer (drop (length x) (x @ closer))" by simp
    show "length x \<le> length (x @ closer)" by simp
    fix k assume k: "k < length x"
    from c have "find_sub closer (34 # x @ closer) = Some (Suc (length x))" by (simp add: clean_def)
    from find_sub_Some_first [OF this, of "Suc k"] k
    show "\<not> prefix closer (drop k (x @ closer))" by simp
  qed
  then show ?thesis by (simp add: seg_def)
qed

text \<open>What a text that a substitution leaves as it is looks like at its first segment.\<close>

lemma fix_seg_inside:
  assumes s: "seg s" and x: "clean body"
    and f: "subst nm body (s @ closer @ rest) = s @ closer @ rest"
    and i: "find_sub (opener nm) s = Some i"
  shows "s = take i s @ opener nm @ body" and "subst nm body rest = rest"
proof -
  let ?d = "drop (i + length (opener nm)) s"
  define X where "X = subst nm body rest"
  from find_sub_split [OF i] have sp: "s = take i s @ opener nm @ ?d" .
  from subst_seg_inside [OF s i, of body rest] f
  have "take i s @ tmpl_repl nm body @ X = s @ closer @ rest" by (simp add: X_def)
  then have "take i s @ opener nm @ body @ closer @ X
      = take i s @ opener nm @ ?d @ closer @ rest"
    using sp by (simp add: tmpl_repl_def)
  then have e: "body @ closer @ X = ?d @ closer @ rest" by simp
  from seg_append_closer [OF clean_seg [OF x], of X]
    seg_append_closer [OF seg_drop [OF s], of "i + length (opener nm)" rest] e
  have "length body = length ?d" by simp
  with e have b: "?d = body" and r: "X = rest" by simp_all
  from sp show "s = take i s @ opener nm @ body" by (simp only: b)
  from r show "subst nm body rest = rest" by (simp add: X_def)
qed

lemma fix_seg_overlap:
  assumes s: "seg s" and x: "clean body"
    and f: "subst nm body (s @ closer @ rest) = s @ closer @ rest"
    and n: "find_sub (opener nm) s = None"
    and i: "find_sub (opener nm) (s @ [34]) = Some i"
  shows "find_sub closer rest = None"
proof (cases "find_sub closer rest")
  case None
  then show ?thesis .
next
  case (Some j)
  let ?X = "subst nm body (drop (j + 3) rest)"
  from subst_seg_overlap [OF s n i, of body rest] Some f
  have "take i s @ tmpl_repl nm body @ ?X = s @ closer @ rest" by simp
  then have "(take i s @ opener nm) @ body @ closer @ ?X = s @ closer @ rest"
    by (simp add: tmpl_repl_def)
  then have "(s @ [34]) @ body @ closer @ ?X = s @ closer @ rest"
    by (simp only: overlap_position(3) [OF n i])
  then have "(34 # body @ closer) @ ?X = closer @ rest" by simp
  moreover from x have "find_sub closer ((34 # body @ closer) @ ?X) = Some (Suc (length body))"
    unfolding clean_def by (rule find_sub_append)
  moreover have "find_sub closer (closer @ rest) = Some 0" by (simp add: closer_val)
  ultimately show ?thesis by simp
qed

lemma fix_seg_rest:
  assumes s: "seg s" and x: "clean body"
    and f: "subst nm body (s @ closer @ rest) = s @ closer @ rest"
  shows "subst nm body rest = rest"
proof (cases "find_sub (opener nm) s")
  case (Some i)
  from fix_seg_inside(2) [OF s x f Some] show ?thesis .
next
  case None
  show ?thesis
  proof (cases "find_sub (opener nm) (s @ [34])")
    case (Some i)
    from fix_seg_overlap [OF s x f None Some] show ?thesis by (rule subst_no_closer)
  next
    case n: None
    from subst_seg_none [OF n, of body rest] f show ?thesis by simp
  qed
qed

lemma fix_seg_new_rest:
  assumes s: "seg s" and x: "clean body"
    and f: "subst nm body (s @ closer @ rest) = s @ closer @ rest"
    and r: "subst nm body r' = r'"
    and c: "find_sub closer rest = None \<Longrightarrow> r' = rest"
  shows "subst nm body (s @ closer @ r') = s @ closer @ r'"
proof (cases "find_sub (opener nm) s")
  case (Some i)
  from fix_seg_inside(1) [OF s x f Some] have sp: "s = take i s @ opener nm @ body" .
  have "subst nm body (s @ closer @ r') = take i s @ tmpl_repl nm body @ r'"
    using subst_seg_inside [OF s Some, of body r'] r by simp
  also have "\<dots> = (take i s @ opener nm @ body) @ closer @ r'" by (simp add: tmpl_repl_def)
  also have "\<dots> = s @ closer @ r'" by (simp only: sp [symmetric])
  finally show ?thesis .
next
  case None
  show ?thesis
  proof (cases "find_sub (opener nm) (s @ [34])")
    case (Some i)
    from c [OF fix_seg_overlap [OF s x f None Some]] f show ?thesis by simp
  next
    case n: None
    from subst_seg_none [OF n, of body r'] r show ?thesis by simp
  qed
qed

lemma opener_in_body:
  assumes "no_opener nm' body" and "prefix (opener nm') (drop j (a @ body @ [34]))"
    and "length a \<le> j"
  shows False
proof -
  from assms(3) obtain d where d: "j = length a + d" using le_Suc_ex by blast
  have "drop j (a @ body @ [34]) = drop d (body @ [34])" unfolding d by simp
  with assms(1,2) find_sub_None [of "opener nm'" "body @ [34]" d] show False
    by (simp add: no_opener_def)
qed

lemma replaced_seg_no_opener:
  assumes ne: "nm \<noteq> nm'" and s: "seg s" and x: "clean body"
    and o: "no_opener nm body'" and o': "no_opener nm' body"
    and f: "subst nm body (s @ closer @ rest) = s @ closer @ rest"
    and j: "find_sub (opener nm') s = Some j"
  shows "find_sub (opener nm) ((take j s @ opener nm' @ body') @ [34]) = None"
proof -
  obtain P0 where P0: "opener nm' = P0 @ [34]" using opener_last by blast
  let ?m = "j + length (opener nm')"
  from find_sub_split [OF j] have sj: "s = (take j s @ opener nm') @ drop ?m s" by simp
  from find_sub_Some_prefix [OF j] have pj: "prefix (opener nm') (drop j s)" .
  from find_sub_opener_bound [OF j] have jl: "?m \<le> length s" .
  have a: "find_sub (opener nm) (take j s @ opener nm') = None"
  proof (cases "find_sub (opener nm) s")
    case None
    then have "find_sub (opener nm) ((take j s @ opener nm') @ drop ?m s) = None"
      by (simp only: sj [symmetric])
    then show ?thesis by (rule find_sub_None_prefix)
  next
    case (Some i)
    from fix_seg_inside(1) [OF s x f Some] have sp: "s = take i s @ opener nm @ body" .
    from find_sub_Some_prefix [OF Some] have pi: "prefix (opener nm) (drop i s)" .
    from find_sub_opener_bound [OF Some] have il: "i + length (opener nm) \<le> length s" .
    from openers_disjoint [OF ne pi pj]
    consider "i + length (opener nm) \<le> j" | "?m \<le> i" by blast
    then show ?thesis
    proof cases
      case 1
      from jl have "drop j (s @ [34]) = drop j s @ [34]" by simp
      with pj have "prefix (opener nm') (drop j (s @ [34]))" by (simp add: prefix_prefix)
      moreover have "s @ [34] = (take i s @ opener nm) @ body @ [34]"
        using sp by simp
      ultimately have "prefix (opener nm') (drop j ((take i s @ opener nm) @ body @ [34]))"
        by simp
      from opener_in_body [OF o' this] 1 il show ?thesis by simp
    next
      case 2
      show ?thesis
      proof (rule ccontr)
        assume "find_sub (opener nm) (take j s @ opener nm') \<noteq> None"
        then obtain k where k: "find_sub (opener nm) (take j s @ opener nm') = Some k" by blast
        from find_sub_append [OF k, of "drop ?m s"] have "find_sub (opener nm) s = Some k"
          by (simp only: sj [symmetric])
        with Some have "k = i" by simp
        moreover from find_sub_opener_bound [OF k] jl
        have "k + length (opener nm) \<le> ?m" by simp
        moreover from opener_nonempty [of nm] have "0 < length (opener nm)" by simp
        ultimately show False using 2 by arith
      qed
    qed
  qed
  have "(take j s @ opener nm' @ body') @ [34] = (take j s @ P0) @ 34 # body' @ [34]"
    by (simp add: P0)
  moreover have "find_sub (opener nm) ((take j s @ P0) @ 34 # body' @ [34]) = None"
    by (rule no_opener_join) (use a o in \<open>simp_all add: P0 no_opener_def\<close>)
  ultimately show ?thesis by simp
qed

lemma overlap_seg_no_opener:
  assumes ne: "nm \<noteq> nm'" and s: "seg s" and x: "clean body"
    and o: "no_opener nm body'" and o': "no_opener nm' body"
    and f: "subst nm body (s @ closer @ rest) = s @ closer @ rest"
    and n': "find_sub (opener nm') s = None"
    and j: "find_sub (opener nm') (s @ [34]) = Some j"
    and c: "find_sub closer rest = Some m"
  shows "find_sub (opener nm) ((s @ 34 # body') @ [34]) = None"
proof -
  have a: "find_sub (opener nm) (s @ [34]) = None"
  proof (cases "find_sub (opener nm) s")
    case (Some i)
    from fix_seg_inside(1) [OF s x f Some] have sp: "s = take i s @ opener nm @ body" .
    from find_sub_opener_bound [OF Some] have il: "i + length (opener nm) \<le> length s" .
    then have "drop i (s @ [34]) = drop i s @ [34]" by simp
    with find_sub_Some_prefix [OF Some] have pi: "prefix (opener nm) (drop i (s @ [34]))"
      by (simp add: prefix_prefix)
    from find_sub_Some_prefix [OF j] have pj: "prefix (opener nm') (drop j (s @ [34]))" .
    from overlap_position(1) [OF n' j] have je: "j + length (opener nm') = length s + 1" .
    from openers_disjoint [OF ne pi pj] il je have 1: "i + length (opener nm) \<le> j" by simp
    have "s @ [34] = (take i s @ opener nm) @ body @ [34]"
      using sp by simp
    with pj have "prefix (opener nm') (drop j ((take i s @ opener nm) @ body @ [34]))"
      by simp
    from opener_in_body [OF o' this] 1 il show ?thesis by simp
  next
    case None
    show ?thesis
    proof (cases "find_sub (opener nm) (s @ [34])")
      case (Some i)
      from fix_seg_overlap [OF s x f None Some] c show ?thesis by simp
    next
      case n: None
      then show ?thesis .
    qed
  qed
  from no_opener_join [OF a, of body'] o show ?thesis by (simp add: no_opener_def)
qed

text \<open>
  A text that the substitution for one name leaves as it is stays so under the
  substitution for another name, when neither template holds the opener of the other.
\<close>

lemma subst_preserves_fix:
  assumes ne: "nm \<noteq> nm'" and x: "clean body" and x': "clean body'"
    and o: "no_opener nm body'" and o': "no_opener nm' body"
    and f: "subst nm body t = t"
  shows "subst nm body (subst nm' body' t) = subst nm' body' t"
  using f
proof (induction "length t" arbitrary: t rule: less_induct)
  case less
  note f = less.prems
  show ?case
  proof (cases "find_sub closer t")
    case None
    then have "subst nm' body' t = t" by (rule subst_no_closer)
    with f show ?thesis by simp
  next
    case (Some n)
    let ?s = "take n t" and ?rest = "drop (n + 3) t"
    from closer_decompose [OF Some] have t: "t = ?s @ closer @ ?rest" and s: "seg ?s" .
    from rest_shorter [OF Some] have sh: "length ?rest < length t" .
    have fs: "subst nm body (?s @ closer @ ?rest) = ?s @ closer @ ?rest"
      unfolding t [symmetric] by (rule f)
    from fix_seg_rest [OF s x fs] have fr: "subst nm body ?rest = ?rest" .
    note IH = less.hyps [OF sh fr]
    let ?R = "subst nm' body' ?rest"
    show ?thesis
    proof (cases "find_sub (opener nm') ?s")
      case (Some j)
      have e: "subst nm' body' t = (take j ?s @ opener nm' @ body') @ closer @ ?R"
        using subst_seg_inside [OF s Some, of body' ?rest]
        by (simp only: t [symmetric] tmpl_repl_def append_assoc)
      from replaced_seg_no_opener [OF ne s x o o' fs Some]
      have "find_sub (opener nm) ((take j ?s @ opener nm' @ body') @ [34]) = None" .
      from subst_seg_none [OF this, of body ?R] IH show ?thesis
        unfolding e by simp
    next
      case None
      note n' = None
      show ?thesis
      proof (cases "find_sub (opener nm') (?s @ [34])")
        case None
        have e: "subst nm' body' t = ?s @ closer @ ?R"
          using subst_seg_none [OF None, of body' ?rest] by (simp only: t [symmetric])
        have "subst nm body (?s @ closer @ ?R) = ?s @ closer @ ?R"
          by (rule fix_seg_new_rest [OF s x fs IH]) (rule subst_no_closer)
        then show ?thesis unfolding e .
      next
        case (Some j)
        have e: "subst nm' body' t =
           (case find_sub closer ?rest of
              None \<Rightarrow> t
            | Some m \<Rightarrow> take j ?s @ tmpl_repl nm' body' @ subst nm' body' (drop (m + 3) ?rest))"
          using subst_seg_overlap [OF s n' Some, of body' ?rest] by (simp only: t [symmetric])
        show ?thesis
        proof (cases "find_sub closer ?rest")
          case None
          with e have "subst nm' body' t = t" by simp
          with f show ?thesis by simp
        next
          case c: (Some m)
          let ?r2 = "drop (m + 3) ?rest"
          let ?R2 = "subst nm' body' ?r2"
          from closer_decompose [OF c]
          have r: "?rest = take m ?rest @ closer @ ?r2" and s2: "seg (take m ?rest)" .
          have "subst nm body (take m ?rest @ closer @ ?r2) = take m ?rest @ closer @ ?r2"
            unfolding r [symmetric] by (rule fr)
          from fix_seg_rest [OF s2 x this] have fr2: "subst nm body ?r2 = ?r2" .
          have "length ?r2 < length t" using sh by simp
          note IH2 = less.hyps [OF this fr2]
          from overlap_position(3) [OF n' Some] have tk: "take j ?s @ opener nm' = ?s @ [34]" .
          have "subst nm' body' t = (take j ?s @ opener nm') @ body' @ closer @ ?R2"
            using e c by (simp add: tmpl_repl_def)
          then have e': "subst nm' body' t = (?s @ 34 # body') @ closer @ ?R2"
            by (simp only: tk) simp
          from overlap_seg_no_opener [OF ne s x o o' fs n' Some c]
          have "find_sub (opener nm) ((?s @ 34 # body') @ [34]) = None" .
          from subst_seg_none [OF this, of body ?R2] IH2 show ?thesis
            unfolding e' by simp
        qed
      qed
    qed
  qed
qed

lemma embed_plain:
  assumes "92 \<notin> set b" and "92 \<notin> set t" and "92 \<notin> set wd"
  shows "embed b t wd c = Inr (subst WEIGHTED wd (subst TIMELOCK t (subst BASIC b c)))"
  by (simp add: embed_def embed_one_plain assms subst_def)

lemma embed_idem:
  assumes pb: "plain_template BASIC b" and pt: "plain_template TIMELOCK t"
    and pw: "plain_template WEIGHTED wd"
    and e: "embed b t wd c = Inr c1"
  shows "embed b t wd c1 = Inr c1"
proof -
  from pb have b: "92 \<notin> set b" "clean b" "no_opener TIMELOCK b" "no_opener WEIGHTED b"
    by (simp_all add: plain_template_def)
  from pt have t: "92 \<notin> set t" "clean t" "no_opener BASIC t" "no_opener WEIGHTED t"
    by (simp_all add: plain_template_def)
  from pw have w: "92 \<notin> set wd" "clean wd" "no_opener BASIC wd" "no_opener TIMELOCK wd"
    by (simp_all add: plain_template_def)
  let ?c1 = "subst BASIC b c"
  let ?c2 = "subst TIMELOCK t ?c1"
  let ?c3 = "subst WEIGHTED wd ?c2"
  from e have c1: "c1 = ?c3" by (simp add: embed_plain b t w)
  have B0: "subst BASIC b ?c1 = ?c1" by (rule subst_idem [OF b(2)])
  have B1: "subst BASIC b ?c2 = ?c2"
    by (rule subst_preserves_fix [OF _ b(2) t(2) t(3) b(3) B0]) simp
  have B: "subst BASIC b ?c3 = ?c3"
    by (rule subst_preserves_fix [OF _ b(2) w(2) w(3) b(4) B1]) simp
  have T0: "subst TIMELOCK t ?c2 = ?c2" by (rule subst_idem [OF t(2)])
  have T: "subst TIMELOCK t ?c3 = ?c3"
    by (rule subst_preserves_fix [OF _ t(2) w(2) w(4) t(4) T0]) simp
  have W: "subst WEIGHTED wd ?c3 = ?c3" by (rule subst_idem [OF w(2)])
  have "embed b t wd ?c3 = Inr (subst WEIGHTED wd (subst TIMELOCK t (subst BASIC b ?c3)))"
    by (rule embed_plain [OF b(1) t(1) w(1)])
  also have "\<dots> = Inr ?c3" by (simp only: B T W)
  finally show ?thesis by (simp only: c1)
qed

text \<open>The output of a substitution holds the characters of its input and of the replacement.\<close>

lemma subst_set: "set (subst nm body x) \<subseteq> set x \<union> set (tmpl_repl nm body)"
proof (induction "length x" arbitrary: x rule: less_induct)
  case less
  show ?case
  proof (cases "find_sub (opener nm) x")
    case None
    then show ?thesis by (simp add: subst_scan)
  next
    case (Some i)
    show ?thesis
    proof (cases "find_sub closer (drop (i + length (opener nm)) x)")
      case None
      with Some show ?thesis by (simp add: subst_scan)
    next
      case j: (Some j)
      let ?r = "drop (i + (length (opener nm) + (j + 3))) x"
      from find_sub_opener_bound [OF Some] opener_nonempty [of nm]
      have "length ?r < length x" by (cases "opener nm") auto
      from less [OF this] have "set (subst nm body ?r) \<subseteq> set x \<union> set (tmpl_repl nm body)"
        using set_drop_subset [of _ x] by blast
      moreover have "subst nm body x = take i x @ tmpl_repl nm body @ subst nm body ?r"
        using Some j by (simp add: subst_scan [of nm body x])
      ultimately show ?thesis using set_take_subset [of i x] by auto
    qed
  qed
qed

lemma universal_newlines_no_cr: "13 \<notin> set (universal_newlines t)"
  by (induction t rule: universal_newlines.induct) simp_all

lemma universal_newlines_id: "13 \<notin> set t \<Longrightarrow> universal_newlines t = t"
  by (induction t rule: universal_newlines.induct) simp_all

lemma embed_no_cr:
  assumes "92 \<notin> set b" and "92 \<notin> set t" and "92 \<notin> set wd"
    and "13 \<notin> set b" and "13 \<notin> set t" and "13 \<notin> set wd" and "13 \<notin> set c"
    and e: "embed b t wd c = Inr c1"
  shows "13 \<notin> set c1"
proof -
  have r: "13 \<notin> set (tmpl_repl nm x)" if "13 \<notin> set x" for nm x
    using that by (cases nm) (simp_all add: tmpl_repl_def opener_val closer_val)
  have s: "13 \<notin> set (subst nm x y)" if "13 \<notin> set x" "13 \<notin> set y" for nm x y
    using subst_set [of nm x y] r [OF that(1)] that(2) by blast
  from e have "c1 = subst WEIGHTED wd (subst TIMELOCK t (subst BASIC b c))"
    by (simp add: embed_plain assms(1-3))
  with assms(4-7) show ?thesis by (simp add: s)
qed

end
